theory Spec2Isabelle
  imports Main "HOL-Library.Word"
begin

section \<open>cQueue: a fixed-capacity ring of equal-sized records\<close>

text \<open>
  A shallow embedding of \<^verbatim>\<open>cQueue.h\<close> / \<^verbatim>\<open>cQueue.c\<close>. The struct \<^verbatim>\<open>Queue_t\<close> is a
  record over machine words; every function of the C file is a HOL function from the
  struct (and the bytes the caller passes) to the updated struct (and bytes).

  Memory. The struct owns one heap block through the pointer \<^verbatim>\<open>queue\<close>. The model keeps
  the block with the pointer: \<open>Alloc mem\<close> is a pointer to a live block holding the bytes
  \<open>mem\<close>, \<open>NULL\<close> is the null pointer, \<open>Invalid\<close> a pointer that designates no live
  block (never assigned, or already freed). A \<^verbatim>\<open>memcpy\<close> that leaves its blocks, and a
  \<^verbatim>\<open>free\<close> of an invalid pointer, are undefined behaviour in C; the model returns
  \<open>None\<close> there, and \<open>Some\<close> of the result everywhere else.

  Integers. The fields are \<^verbatim>\<open>uint16_t\<close> and are modelled as 16-bit words. The byte offsets
  \<^verbatim>\<open>rec_sz * in\<close>, \<^verbatim>\<open>rec_sz * out\<close> and the allocation size \<^verbatim>\<open>nb_recs * size_rec\<close> are
  products of two \<^verbatim>\<open>uint16_t\<close> values, which C promotes to \<^verbatim>\<open>int\<close> (32 bits) before it
  multiplies. A product above \<open>INT_MAX\<close> is a signed overflow, undefined behaviour in C;
  the model returns \<open>None\<close> there as well (\<open>int_mul\<close>).
\<close>

subsection \<open>Data\<close>

type_synonym uint8_t = "8 word"
type_synonym uint16_t = "16 word"
type_synonym uint32_t = "32 word"

text \<open>
  \<^verbatim>\<open>typedef enum enumQueueType { FIFO = 0, LIFO = 1 } QueueType;\<close>
  An object of a C enumeration type can hold any value of the underlying integer type;
  the functions below test \<^verbatim>\<open>impl == FIFO\<close>, then \<^verbatim>\<open>impl == LIFO\<close>, and have a third branch
  for every other value.
\<close>

type_synonym QueueType = "32 word"

definition FIFO :: QueueType where
  "FIFO = 0"

definition LIFO :: QueueType where
  "LIFO = 1"

datatype pointer = NULL | Invalid | Alloc "uint8_t list"

record Queue_t =
  impl :: QueueType
  ovw :: bool
  rec_nb :: uint16_t
  rec_sz :: uint16_t
  queue_sz :: uint32_t
  queue :: pointer
  in' :: uint16_t
  out :: uint16_t
  cnt :: uint16_t
  init :: uint16_t

definition QUEUE_INITIALIZED :: uint16_t where
  "QUEUE_INITIALIZED = 0x5AA5"

subsection \<open>Index macros\<close>

text \<open>
  \<^verbatim>\<open>#define INC_IDX(ctr, end, start) if (ctr < (end-1)) { ctr++; } else { ctr = start; }\<close>
  The comparison is made in \<^verbatim>\<open>int\<close>: for \<^verbatim>\<open>end = 0\<close> the bound is \<open>-1\<close>.

  \<^verbatim>\<open>#define DEC_IDX(ctr, end, start) if (ctr > (start)) { ctr--; } else { ctr = end-1; }\<close>
  The assignment converts \<^verbatim>\<open>end-1\<close> back to 16 bits.
\<close>

definition INC_IDX :: "uint16_t \<Rightarrow> uint16_t \<Rightarrow> uint16_t \<Rightarrow> uint16_t" where
  "INC_IDX ctr e start = (if uint ctr < uint e - 1 then ctr + 1 else start)"

definition DEC_IDX :: "uint16_t \<Rightarrow> uint16_t \<Rightarrow> uint16_t \<Rightarrow> uint16_t" where
  "DEC_IDX ctr e start = (if ctr > start then ctr - 1 else e - 1)"

subsection \<open>Products in int\<close>

text \<open>
  \<open>int_mul a b\<close> is the C expression \<^verbatim>\<open>a * b\<close> on two \<^verbatim>\<open>uint16_t\<close> operands: both are
  promoted to the 32-bit \<^verbatim>\<open>int\<close>, and the product is defined only up to \<open>INT_MAX\<close>.
\<close>

definition INT_MAX :: nat where
  "INT_MAX = 2147483647"

definition int_mul :: "uint16_t \<Rightarrow> uint16_t \<Rightarrow> nat option" where
  "int_mul a b = (if unat a * unat b \<le> INT_MAX then Some (unat a * unat b) else None)"

subsection \<open>Memory\<close>

text \<open>
  \<open>memcpy dst d src s n\<close> copies \<open>n\<close> bytes from offset \<open>s\<close> of the block \<open>src\<close> to
  offset \<open>d\<close> of the block \<open>dst\<close> and returns the new contents of \<open>dst\<close>; \<open>None\<close> when
  either range leaves its block.
\<close>

definition memcpy :: "uint8_t list \<Rightarrow> nat \<Rightarrow> uint8_t list \<Rightarrow> nat \<Rightarrow> nat \<Rightarrow> uint8_t list option" where
  "memcpy dst d src s n =
     (if d + n \<le> length dst \<and> s + n \<le> length src
      then Some (take d dst @ take n (drop s src) @ drop (d + n) dst)
      else None)"

subsection \<open>Queries\<close>

definition q_isInitialized :: "Queue_t \<Rightarrow> bool" where
  "q_isInitialized q = (if init q = QUEUE_INITIALIZED then True else False)"

definition q_isEmpty :: "Queue_t \<Rightarrow> bool" where
  "q_isEmpty q = (if cnt q = 0 then True else False)"

definition q_isFull :: "Queue_t \<Rightarrow> bool" where
  "q_isFull q = (if cnt q = rec_nb q then True else False)"

definition q_sizeof :: "Queue_t \<Rightarrow> uint32_t" where
  "q_sizeof q = queue_sz q"

definition q_getCount :: "Queue_t \<Rightarrow> uint16_t" where
  "q_getCount q = cnt q"

definition q_getRemainingCount :: "Queue_t \<Rightarrow> uint16_t" where
  "q_getRemainingCount q = rec_nb q - cnt q"

subsection \<open>Initialisation, release, flush\<close>

text \<open>
  \<^verbatim>\<open>void q_kill(Queue_t * q) { free(q->queue); }\<close>
  Freeing the null pointer does nothing; freeing a live block leaves the pointer
  dangling; freeing anything else is undefined.
\<close>

definition q_kill :: "Queue_t \<Rightarrow> Queue_t option" where
  "q_kill q =
     (case queue q of
        NULL \<Rightarrow> Some q
      | Alloc mem \<Rightarrow> Some (q\<lparr>queue := Invalid\<rparr>)
      | Invalid \<Rightarrow> None)"

text \<open>
  \<^verbatim>\<open>void q_clean(Queue_t * q) { q->in = 0; q->out = 0; q->cnt = 0; }\<close>
  The header defines \<^verbatim>\<open>q_clean\<close> as an alias of \<^verbatim>\<open>q_flush\<close>.
\<close>

definition q_clean :: "Queue_t \<Rightarrow> Queue_t" where
  "q_clean q = q\<lparr>in' := 0, out := 0, cnt := 0\<rparr>"

abbreviation q_flush :: "Queue_t \<Rightarrow> Queue_t" where
  "q_flush \<equiv> q_clean"

text \<open>
  \<^verbatim>\<open>q_init\<close>. The allocator is a parameter: \<open>malloc n\<close> is \<open>None\<close> when the allocation
  fails (C's \<^verbatim>\<open>malloc\<close> returns the null pointer) and \<open>Some mem\<close>, the fresh block with its
  indeterminate contents, when it succeeds. The size passed is the \<^verbatim>\<open>int\<close> product
  \<^verbatim>\<open>nb_recs * size_rec\<close>. The C function returns nothing and does not assign
  \<^verbatim>\<open>queue_sz\<close>.
\<close>

definition q_init ::
  "(nat \<Rightarrow> uint8_t list option) \<Rightarrow> Queue_t \<Rightarrow> uint16_t \<Rightarrow> uint16_t \<Rightarrow> QueueType \<Rightarrow> bool
     \<Rightarrow> Queue_t option" where
  "q_init malloc q size_rec nb_recs type overwrite =
     (let q1 = q\<lparr>rec_nb := nb_recs, rec_sz := size_rec, impl := type, ovw := overwrite\<rparr> in
      case (if init q1 = 0x5AA5 then q_kill q1 else Some q1) of
        None \<Rightarrow> None
      | Some q2 \<Rightarrow>
          (case int_mul nb_recs size_rec of
             None \<Rightarrow> None
           | Some n \<Rightarrow>
               let q3 = q2\<lparr>queue := (case malloc n of
                                        None \<Rightarrow> NULL
                                      | Some mem \<Rightarrow> Alloc mem)\<rparr>;
                   q4 = q3\<lparr>init := 0x5AA5\<rparr>
               in Some (q_clean q4)))"

subsection \<open>Push, pop, peek, drop\<close>

text \<open>
  \<open>q_push q rcd\<close>: \<open>rcd\<close> is the caller's record. The result is the returned flag and
  the struct after the call.
\<close>

definition q_push :: "Queue_t \<Rightarrow> uint8_t list \<Rightarrow> (bool \<times> Queue_t) option" where
  "q_push q rcd =
     (if \<not> ovw q \<and> q_isFull q then Some (False, q)
      else
        case int_mul (rec_sz q) (in' q) of
          None \<Rightarrow> None
        | Some pStart \<Rightarrow>
            (case queue q of
               Alloc mem \<Rightarrow>
                 (case memcpy mem pStart rcd 0 (unat (rec_sz q)) of
                    None \<Rightarrow> None
                  | Some mem' \<Rightarrow>
                      let q1 = q\<lparr>queue := Alloc mem'\<rparr>;
                          q2 = q1\<lparr>in' := INC_IDX (in' q1) (rec_nb q1) 0\<rparr>;
                          q3 = (if \<not> q_isFull q2 then q2\<lparr>cnt := cnt q2 + 1\<rparr>
                                else if ovw q2
                                then (if impl q2 = FIFO
                                      then q2\<lparr>out := INC_IDX (out q2) (rec_nb q2) 0\<rparr>
                                      else q2)
                                else q2)
                      in Some (True, q3))
             | _ \<Rightarrow> None))"

text \<open>
  \<^verbatim>\<open>memcpy(record, pStart, q->rec_sz)\<close>, the copy out of the storage shared by
  \<^verbatim>\<open>q_pop\<close> and \<^verbatim>\<open>q_peek\<close>: \<open>pStart\<close> is the byte offset into the block, the result the
  caller's buffer after the copy.
\<close>

definition copy_out :: "Queue_t \<Rightarrow> nat \<Rightarrow> uint8_t list \<Rightarrow> uint8_t list option" where
  "copy_out q pStart rcd =
     (case queue q of
        Alloc mem \<Rightarrow> memcpy rcd 0 mem pStart (unat (rec_sz q))
      | _ \<Rightarrow> None)"

text \<open>
  \<open>q_pop q rcd\<close>: \<open>rcd\<close> is the caller's buffer before the call. The result is the
  returned flag, the struct and the buffer after the call.
\<close>

definition q_pop :: "Queue_t \<Rightarrow> uint8_t list \<Rightarrow> (bool \<times> Queue_t \<times> uint8_t list) option" where
  "q_pop q rcd =
     (if q_isEmpty q then Some (False, q, rcd)
      else if impl q = FIFO then
        (case int_mul (rec_sz q) (out q) of
           None \<Rightarrow> None
         | Some pStart \<Rightarrow>
             let q1 = q\<lparr>out := INC_IDX (out q) (rec_nb q) 0\<rparr>
             in case copy_out q1 pStart rcd of
                  None \<Rightarrow> None
                | Some rcd' \<Rightarrow> Some (True, q1\<lparr>cnt := cnt q1 - 1\<rparr>, rcd'))
      else if impl q = LIFO then
        (let q1 = q\<lparr>in' := DEC_IDX (in' q) (rec_nb q) 0\<rparr>
         in case int_mul (rec_sz q1) (in' q1) of
              None \<Rightarrow> None
            | Some pStart \<Rightarrow>
                (case copy_out q1 pStart rcd of
                   None \<Rightarrow> None
                 | Some rcd' \<Rightarrow> Some (True, q1\<lparr>cnt := cnt q1 - 1\<rparr>, rcd')))
      else Some (False, q, rcd))"

definition q_peek :: "Queue_t \<Rightarrow> uint8_t list \<Rightarrow> (bool \<times> Queue_t \<times> uint8_t list) option" where
  "q_peek q rcd =
     (if q_isEmpty q then Some (False, q, rcd)
      else if impl q = FIFO then
        (case int_mul (rec_sz q) (out q) of
           None \<Rightarrow> None
         | Some pStart \<Rightarrow>
             (case copy_out q pStart rcd of
                None \<Rightarrow> None
              | Some rcd' \<Rightarrow> Some (True, q, rcd')))
      else if impl q = LIFO then
        (let rec = DEC_IDX (in' q) (rec_nb q) 0
         in case int_mul (rec_sz q) rec of
              None \<Rightarrow> None
            | Some pStart \<Rightarrow>
                (case copy_out q pStart rcd of
                   None \<Rightarrow> None
                 | Some rcd' \<Rightarrow> Some (True, q, rcd')))
      else Some (False, q, rcd))"

definition q_drop :: "Queue_t \<Rightarrow> bool \<times> Queue_t" where
  "q_drop q =
     (if q_isEmpty q then (False, q)
      else if impl q = FIFO then
        (let q1 = q\<lparr>out := INC_IDX (out q) (rec_nb q) 0\<rparr>
         in (True, q1\<lparr>cnt := cnt q1 - 1\<rparr>))
      else if impl q = LIFO then
        (let q1 = q\<lparr>in' := DEC_IDX (in' q) (rec_nb q) 0\<rparr>
         in (True, q1\<lparr>cnt := cnt q1 - 1\<rparr>))
      else (False, q))"

subsection \<open>Well-formed states and what a ring holds\<close>

text \<open>
  An allocator behaves like \<^verbatim>\<open>malloc\<close> when a block it hands out has the size asked for.
\<close>

definition malloc_ok :: "(nat \<Rightarrow> uint8_t list option) \<Rightarrow> bool" where
  "malloc_ok malloc = (\<forall>n mem. malloc n = Some mem \<longrightarrow> length mem = n)"

text \<open>
  A ready ring: the control value is set, the pointer designates a live block of
  \<open>rec_nb * rec_sz\<close> bytes, that size is at most \<open>INT_MAX\<close>, both cursors are slot
  indices, the count is at most the capacity, and in FIFO mode the write cursor is
  \<open>cnt\<close> slots ahead of the read cursor. These are the states a \<open>q_init\<close> produces
  whose allocation succeeds (a \<open>q_init\<close> whose size overflows \<^verbatim>\<open>int\<close> is undefined and
  produces none, lemma \<open>q_init_overflow\<close>, and every state reached from a \<open>q_init\<close>
  keeps the size within \<open>INT_MAX\<close>, lemma \<open>reachable_size_bound\<close>), and the operations
  keep them (lemmas \<open>ready_q_init\<close>, \<open>ready_q_push\<close>, \<open>ready_q_pop\<close>,
  \<open>ready_q_peek\<close>, \<open>ready_q_drop\<close>, \<open>ready_q_clean\<close>).
\<close>

definition ready :: "Queue_t \<Rightarrow> bool" where
  "ready q =
     (q_isInitialized q
      \<and> (case queue q of
           Alloc mem \<Rightarrow> length mem = unat (rec_nb q) * unat (rec_sz q)
         | _ \<Rightarrow> False)
      \<and> unat (rec_nb q) * unat (rec_sz q) \<le> INT_MAX
      \<and> in' q < rec_nb q \<and> out q < rec_nb q \<and> cnt q \<le> rec_nb q
      \<and> (impl q = FIFO \<longrightarrow>
           unat (in' q) = (unat (out q) + unat (cnt q)) mod unat (rec_nb q)))"

definition storage :: "Queue_t \<Rightarrow> uint8_t list" where
  "storage q = (case queue q of Alloc mem \<Rightarrow> mem | _ \<Rightarrow> [])"

text \<open>The bytes of slot \<open>i\<close> of the storage.\<close>

definition slot :: "Queue_t \<Rightarrow> nat \<Rightarrow> uint8_t list" where
  "slot q i = take (unat (rec_sz q)) (drop (unat (rec_sz q) * i) (storage q))"

text \<open>
  The live records of a ring. In FIFO mode they start at \<open>out\<close> and run forward, oldest
  first. In LIFO mode they start below \<open>in\<close> and run backward, newest first.
\<close>

definition fifo_contents :: "Queue_t \<Rightarrow> uint8_t list list" where
  "fifo_contents q =
     map (\<lambda>k. slot q ((unat (out q) + k) mod unat (rec_nb q))) [0..<unat (cnt q)]"

definition lifo_contents :: "Queue_t \<Rightarrow> uint8_t list list" where
  "lifo_contents q =
     map (\<lambda>k. slot q ((unat (in' q) + unat (rec_nb q) - Suc k) mod unat (rec_nb q)))
       [0..<unat (cnt q)]"

subsection \<open>Sequences of calls\<close>

text \<open>
  \<open>push_all q rs\<close> pushes the records \<open>rs\<close> one after the other and collects the
  returned flags. \<open>pop_n q n buf\<close> pops \<open>n\<close> times into the same buffer and collects,
  for each call, the returned flag and the buffer after the call.
\<close>

fun push_all :: "Queue_t \<Rightarrow> uint8_t list list \<Rightarrow> (bool list \<times> Queue_t) option" where
  "push_all q [] = Some ([], q)"
| "push_all q (r # rs) =
     (case q_push q r of
        None \<Rightarrow> None
      | Some (ok, q') \<Rightarrow>
          (case push_all q' rs of
             None \<Rightarrow> None
           | Some (oks, q'') \<Rightarrow> Some (ok # oks, q'')))"

fun pop_n :: "Queue_t \<Rightarrow> nat \<Rightarrow> uint8_t list \<Rightarrow> ((bool \<times> uint8_t list) list \<times> Queue_t) option" where
  "pop_n q 0 buf = Some ([], q)"
| "pop_n q (Suc n) buf =
     (case q_pop q buf of
        None \<Rightarrow> None
      | Some (ok, q', buf') \<Rightarrow>
          (case pop_n q' n buf' of
             None \<Rightarrow> None
           | Some (res, q'') \<Rightarrow> Some ((ok, buf') # res, q'')))"

text \<open>
  The states a program reaches that creates a ring of positive capacity and then calls
  the operations, in any order and with any arguments, as long as no call is undefined.
\<close>

inductive reachable :: "Queue_t \<Rightarrow> bool" where
  r_init: "0 < nb_recs \<Longrightarrow> q_init malloc q0 size_rec nb_recs type overwrite = Some q
            \<Longrightarrow> reachable q"
| r_push: "reachable q \<Longrightarrow> q_push q rcd = Some (ok, q') \<Longrightarrow> reachable q'"
| r_pop: "reachable q \<Longrightarrow> q_pop q rcd = Some (ok, q', rcd') \<Longrightarrow> reachable q'"
| r_peek: "reachable q \<Longrightarrow> q_peek q rcd = Some (ok, q', rcd') \<Longrightarrow> reachable q'"
| r_drop: "reachable q \<Longrightarrow> q_drop q = (ok, q') \<Longrightarrow> reachable q'"
| r_flush: "reachable q \<Longrightarrow> reachable (q_flush q)"
| r_kill: "reachable q \<Longrightarrow> q_kill q = Some q' \<Longrightarrow> reachable q'"

subsection \<open>Concrete states\<close>

text \<open>
  \<open>zero_Queue\<close> is a struct of static storage duration before any call: every field is
  zero and the pointer is null. \<open>malloc_fail\<close> is an allocator out of memory,
  \<open>malloc_zero\<close> one that hands out zeroed blocks. \<open>ring_example\<close> is a ring of two
  one-byte slots with the control value set.
\<close>

definition zero_Queue :: Queue_t where
  "zero_Queue = \<lparr>impl = 0, ovw = False, rec_nb = 0, rec_sz = 0, queue_sz = 0, queue = NULL,
                  in' = 0, out = 0, cnt = 0, init = 0\<rparr>"

definition malloc_fail :: "nat \<Rightarrow> uint8_t list option" where
  "malloc_fail n = None"

definition malloc_zero :: "nat \<Rightarrow> uint8_t list option" where
  "malloc_zero n = Some (replicate n 0)"

definition ring_example :: "QueueType \<Rightarrow> bool \<Rightarrow> uint8_t list \<Rightarrow> uint16_t \<Rightarrow> uint16_t \<Rightarrow> uint16_t \<Rightarrow> Queue_t" where
  "ring_example t ov mem i ou c =
     \<lparr>impl = t, ovw = ov, rec_nb = 2, rec_sz = 1, queue_sz = 0, queue = Alloc mem,
      in' = i, out = ou, cnt = c, init = 0x5AA5\<rparr>"

text \<open>A ring of two slots whose records have no bytes.\<close>

definition ring_empty_records ::
  "QueueType \<Rightarrow> bool \<Rightarrow> uint16_t \<Rightarrow> uint16_t \<Rightarrow> uint16_t \<Rightarrow> Queue_t" where
  "ring_empty_records t ov i ou c =
     \<lparr>impl = t, ovw = ov, rec_nb = 2, rec_sz = 0, queue_sz = 0, queue = Alloc [],
      in' = i, out = ou, cnt = c, init = 0x5AA5\<rparr>"

section \<open>Index arithmetic\<close>

text \<open>
  On a cursor below the capacity, \<open>INC_IDX\<close> is the successor and \<open>DEC_IDX\<close> the
  predecessor modulo the capacity.
\<close>

lemma uint_lt_pred_iff: "(uint (i::16 word) < uint (nb::16 word) - 1) = (unat i + 1 < unat nb)"
  unfolding uint_nat by linarith

lemma unat_u16_bound: "unat (w::16 word) < 65536"
  using unsigned_less [of w, where ?'a = nat] by simp

lemma unat_INC_IDX: "i < nb \<Longrightarrow> unat (INC_IDX i nb 0) = (unat i + 1) mod unat nb"
proof -
  assume lt: "i < nb"
  then have a: "unat i < unat nb" by (simp add: word_less_nat_alt)
  show ?thesis
  proof (cases "unat i + 1 < unat nb")
    case True
    then have "unat i + 1 < 65536" using unat_u16_bound [of nb] by linarith
    then have "unat (i + 1) = unat i + 1" by (simp add: unat_word_ariths)
    with True show ?thesis by (simp add: INC_IDX_def uint_lt_pred_iff)
  next
    case False
    with a have "unat i + 1 = unat nb" by linarith
    then have "(unat i + 1) mod unat nb = 0" by simp
    with False show ?thesis by (simp add: INC_IDX_def uint_lt_pred_iff)
  qed
qed

lemma INC_IDX_less: "i < nb \<Longrightarrow> INC_IDX i nb 0 < nb"
proof -
  assume lt: "i < nb"
  then have "0 < unat nb" by (simp add: word_less_nat_alt)
  then have "(unat i + 1) mod unat nb < unat nb" by simp
  then show ?thesis using unat_INC_IDX [OF lt] by (simp add: word_less_nat_alt)
qed

lemma unat_DEC_IDX: "i < nb \<Longrightarrow> unat (DEC_IDX i nb 0) = (unat i + unat nb - 1) mod unat nb"
proof -
  assume lt: "i < nb"
  then have a: "unat i < unat nb" by (simp add: word_less_nat_alt)
  show ?thesis
  proof (cases "i = 0")
    case True
    from a have "nb \<noteq> 0" by auto
    then have "unat (nb - 1) = unat nb - 1" by (simp add: unat_minus_one)
    with True a show ?thesis by (simp add: DEC_IDX_def)
  next
    case False
    then have p: "0 < unat i" by (simp add: unat_gt_0)
    from False have "unat (i - 1) = unat i - 1" by (simp add: unat_minus_one)
    moreover from p a have "(unat i + unat nb - 1) mod unat nb = unat i - 1"
      by (simp add: mod_if) 
    moreover from False have "0 < i" by (simp add: word_greater_zero_iff)
    ultimately show ?thesis by (simp add: DEC_IDX_def)
  qed
qed

lemma DEC_IDX_less: "i < nb \<Longrightarrow> DEC_IDX i nb 0 < nb"
proof -
  assume lt: "i < nb"
  then have "0 < unat nb" by (simp add: word_less_nat_alt)
  then have "(unat i + unat nb - 1) mod unat nb < unat nb" by simp
  then show ?thesis using unat_DEC_IDX [OF lt] by (simp add: word_less_nat_alt)
qed

text \<open>
  In a ready ring the byte offset of every slot is a product that \<^verbatim>\<open>int\<close> can hold.
\<close>

lemma int_mul_Some: "unat a * unat b \<le> INT_MAX \<Longrightarrow> int_mul a b = Some (unat a * unat b)"
  by (simp add: int_mul_def)

lemma int_mul_ready:
  assumes "ready q" and "i < rec_nb q"
  shows "int_mul (rec_sz q) i = Some (unat (rec_sz q) * unat i)"
proof -
  have "unat i \<le> unat (rec_nb q)" using assms(2) by (simp add: word_less_nat_alt)
  then have a: "unat (rec_sz q) * unat i \<le> unat (rec_sz q) * unat (rec_nb q)"
    by (rule mult_le_mono2)
  have b: "unat (rec_sz q) * unat (rec_nb q) \<le> INT_MAX"
    using assms(1) by (simp add: ready_def mult.commute)
  from a b have "unat (rec_sz q) * unat i \<le> INT_MAX"
    by (rule le_trans)
  then show ?thesis by (rule int_mul_Some)
qed

section \<open>Flush\<close>

text \<open>
  C5. \<open>q_flush\<close> sets \<open>in\<close>, \<open>out\<close> and \<open>cnt\<close> to 0 and leaves the capacity, the
  record size, the mode, the overwrite flag, the control value (so the answer of
  \<open>q_isInitialized\<close>), the storage and the remaining field unchanged. This holds for every
  struct, ready or not.
\<close>

theorem q_flush_frame:
  "in' (q_flush q) = 0 \<and> out (q_flush q) = 0 \<and> cnt (q_flush q) = 0
   \<and> rec_nb (q_flush q) = rec_nb q \<and> rec_sz (q_flush q) = rec_sz q
   \<and> impl (q_flush q) = impl q \<and> ovw (q_flush q) = ovw q
   \<and> init (q_flush q) = init q \<and> q_isInitialized (q_flush q) = q_isInitialized q
   \<and> queue (q_flush q) = queue q \<and> queue_sz (q_flush q) = queue_sz q"
  by (simp add: q_clean_def q_isInitialized_def)

section \<open>Calls that return false\<close>

text \<open>
  C2. A call that fails leaves everything as it was. \<open>q_push\<close> on a full ring without
  overwrite returns false and the struct, storage included, is the one passed in;
  \<open>q_pop\<close>, \<open>q_peek\<close> and \<open>q_drop\<close> on an empty ring return false, and the struct and
  the caller's buffer are the ones passed in. More generally, whenever one of the four
  returns false, the struct and the buffer after the call are those before it.
\<close>

theorem failed_call_no_change:
  "(q_isFull q \<and> \<not> ovw q \<longrightarrow> q_push q rcd = Some (False, q))
   \<and> (q_isEmpty q \<longrightarrow> q_pop q rcd = Some (False, q, rcd)
                       \<and> q_peek q rcd = Some (False, q, rcd)
                       \<and> q_drop q = (False, q))
   \<and> (q_push q rcd = Some (False, q') \<longrightarrow> q' = q)
   \<and> (q_pop q rcd = Some (False, q', rcd') \<longrightarrow> q' = q \<and> rcd' = rcd)
   \<and> (q_peek q rcd = Some (False, q', rcd') \<longrightarrow> q' = q \<and> rcd' = rcd)
   \<and> (q_drop q = (False, q') \<longrightarrow> q' = q)"
proof -
  have "q_isFull q \<and> \<not> ovw q \<longrightarrow> q_push q rcd = Some (False, q)"
    by (simp add: q_push_def)
  moreover have "q_isEmpty q \<longrightarrow> q_pop q rcd = Some (False, q, rcd)
                       \<and> q_peek q rcd = Some (False, q, rcd)
                       \<and> q_drop q = (False, q)"
    by (simp add: q_pop_def q_peek_def q_drop_def)
  moreover have "q_push q rcd = Some (False, q') \<longrightarrow> q' = q"
    by (auto simp: q_push_def Let_def split: if_splits pointer.splits option.splits)
  moreover have "q_pop q rcd = Some (False, q', rcd') \<longrightarrow> q' = q \<and> rcd' = rcd"
    by (auto simp: q_pop_def Let_def split: if_splits option.splits)
  moreover have "q_peek q rcd = Some (False, q', rcd') \<longrightarrow> q' = q \<and> rcd' = rcd"
    by (auto simp: q_peek_def Let_def split: if_splits option.splits)
  moreover have "q_drop q = (False, q') \<longrightarrow> q' = q"
    by (auto simp: q_drop_def Let_def split: if_splits)
  ultimately show ?thesis by blast
qed

text \<open>The theorem at a full FIFO ring and at an empty LIFO ring, both ready.\<close>

theorem failed_call_no_change_witness:
  "ready (ring_example FIFO False [5, 6] 0 0 2)
   \<and> q_isFull (ring_example FIFO False [5, 6] 0 0 2)
   \<and> \<not> ovw (ring_example FIFO False [5, 6] 0 0 2)
   \<and> q_push (ring_example FIFO False [5, 6] 0 0 2) [9]
       = Some (False, ring_example FIFO False [5, 6] 0 0 2)
   \<and> ready (ring_example LIFO False [5, 6] 1 0 0)
   \<and> q_isEmpty (ring_example LIFO False [5, 6] 1 0 0)
   \<and> q_pop (ring_example LIFO False [5, 6] 1 0 0) [9]
       = Some (False, ring_example LIFO False [5, 6] 1 0 0, [9])
   \<and> q_peek (ring_example LIFO False [5, 6] 1 0 0) [9]
       = Some (False, ring_example LIFO False [5, 6] 1 0 0, [9])
   \<and> q_drop (ring_example LIFO False [5, 6] 1 0 0)
       = (False, ring_example LIFO False [5, 6] 1 0 0)"
proof -
  have f: "q_isFull (ring_example FIFO False [5, 6] 0 0 2)
           \<and> \<not> ovw (ring_example FIFO False [5, 6] 0 0 2)"
    by (simp add: q_isFull_def ring_example_def int_mul_def INT_MAX_def)
  have e: "q_isEmpty (ring_example LIFO False [5, 6] 1 0 0)"
    by (simp add: q_isEmpty_def ring_example_def int_mul_def INT_MAX_def)
  have r: "ready (ring_example FIFO False [5, 6] 0 0 2)
           \<and> ready (ring_example LIFO False [5, 6] 1 0 0)"
    by (simp add: ready_def ring_example_def int_mul_def INT_MAX_def q_isInitialized_def QUEUE_INITIALIZED_def
        FIFO_def LIFO_def)
  show ?thesis
    using f e r
      failed_call_no_change [of "ring_example FIFO False [5, 6] 0 0 2" "[9]"]
      failed_call_no_change [of "ring_example LIFO False [5, 6] 1 0 0" "[9]"]
    by simp
qed

text \<open>
  C10. When \<open>impl\<close> is neither \<open>FIFO\<close> nor \<open>LIFO\<close>, \<open>q_pop\<close>, \<open>q_peek\<close> and
  \<open>q_drop\<close> return false; the struct (so \<open>in\<close>, \<open>out\<close>, \<open>cnt\<close> and the storage) and
  the caller's buffer are unchanged, whether the ring is empty or not.
\<close>

theorem invalid_mode_rejected:
  assumes "impl q \<noteq> FIFO" and "impl q \<noteq> LIFO"
  shows "q_pop q rcd = Some (False, q, rcd)
         \<and> q_peek q rcd = Some (False, q, rcd)
         \<and> q_drop q = (False, q)"
  using assms by (simp add: q_pop_def q_peek_def q_drop_def)

text \<open>The theorem at a non-empty ring whose mode field holds 2.\<close>

theorem invalid_mode_rejected_witness:
  "impl (ring_example 2 False [5, 6] 1 0 1) \<noteq> FIFO
   \<and> impl (ring_example 2 False [5, 6] 1 0 1) \<noteq> LIFO
   \<and> \<not> q_isEmpty (ring_example 2 False [5, 6] 1 0 1)
   \<and> q_pop (ring_example 2 False [5, 6] 1 0 1) [9]
       = Some (False, ring_example 2 False [5, 6] 1 0 1, [9])
   \<and> q_peek (ring_example 2 False [5, 6] 1 0 1) [9]
       = Some (False, ring_example 2 False [5, 6] 1 0 1, [9])
   \<and> q_drop (ring_example 2 False [5, 6] 1 0 1)
       = (False, ring_example 2 False [5, 6] 1 0 1)"
proof -
  have m: "impl (ring_example 2 False [5, 6] 1 0 1) \<noteq> FIFO"
          "impl (ring_example 2 False [5, 6] 1 0 1) \<noteq> LIFO"
    by (simp_all add: ring_example_def int_mul_def INT_MAX_def FIFO_def LIFO_def)
  have n: "\<not> q_isEmpty (ring_example 2 False [5, 6] 1 0 1)"
    by (simp add: ring_example_def int_mul_def INT_MAX_def q_isEmpty_def)
  show ?thesis
    using m n invalid_mode_rejected [OF m, of "[9]"] by simp
qed

section \<open>Initialisation\<close>

text \<open>
  C7. The claim: when the allocation fails, \<open>q_init\<close> signals the failure and the ring
  is left not ready. The code at \<open>q_init(q, 4, 3, FIFO, false)\<close> on a zeroed struct, with
  \<^verbatim>\<open>malloc\<close> returning the null pointer: the control value is set all the same, so
  \<open>q_isInitialized\<close> answers true while the pointer is null.
\<close>

theorem q_init_alloc_failure_sets_init:
  "q_init malloc_fail zero_Queue 4 3 FIFO False
     = Some (zero_Queue\<lparr>rec_nb := 3, rec_sz := 4, init := 0x5AA5\<rparr>)
   \<and> q_isInitialized (zero_Queue\<lparr>rec_nb := 3, rec_sz := 4, init := 0x5AA5\<rparr>)
   \<and> queue (zero_Queue\<lparr>rec_nb := 3, rec_sz := 4, init := 0x5AA5\<rparr>) = NULL"
  by (simp add: q_init_def q_clean_def malloc_fail_def zero_Queue_def int_mul_def INT_MAX_def FIFO_def
      q_isInitialized_def QUEUE_INITIALIZED_def)

text \<open>
  C9. The claim: after \<open>q_init\<close> the size query returns capacity times record size. The
  code at \<open>q_init(q, 4, 3, FIFO, false)\<close> on a zeroed struct, with a successful
  allocation of the 12 bytes: \<open>queue_sz\<close> is never assigned, and \<open>q_sizeof\<close> returns the
  0 the struct held before.
\<close>

theorem q_init_leaves_queue_sz:
  "q_init malloc_zero zero_Queue 4 3 FIFO False
     = Some (zero_Queue\<lparr>rec_nb := 3, rec_sz := 4, queue := Alloc (replicate 12 0),
                        init := 0x5AA5\<rparr>)
   \<and> q_sizeof (zero_Queue\<lparr>rec_nb := 3, rec_sz := 4, queue := Alloc (replicate 12 0),
                          init := 0x5AA5\<rparr>) = 0
   \<and> unat (3 :: uint16_t) * unat (4 :: uint16_t) = 12"
  by (simp add: q_init_def q_clean_def malloc_zero_def zero_Queue_def int_mul_def INT_MAX_def FIFO_def q_sizeof_def)

text \<open>
  The same for every call: whatever the allocator answers, a \<open>q_init\<close> that returns
  leaves the control value set and \<open>queue_sz\<close> as it was; and no operation changes what
  \<open>q_sizeof\<close> returns.
\<close>

lemma q_init_fields:
  assumes "q_init malloc q size_rec nb_recs type overwrite = Some q'"
  shows "q_isInitialized q' \<and> queue_sz q' = queue_sz q"
  using assms
  by (auto simp: q_init_def q_clean_def q_kill_def q_isInitialized_def QUEUE_INITIALIZED_def
      Let_def split: if_splits option.splits pointer.splits)

lemma queue_sz_unchanged:
  "q_push q rcd = Some (ok, q') \<Longrightarrow> q_sizeof q' = q_sizeof q"
  "q_pop q rcd = Some (ok, q', rcd') \<Longrightarrow> q_sizeof q' = q_sizeof q"
  "q_peek q rcd = Some (ok, q', rcd') \<Longrightarrow> q_sizeof q' = q_sizeof q"
  "q_drop q = (ok, q') \<Longrightarrow> q_sizeof q' = q_sizeof q"
  "q_sizeof (q_flush q) = q_sizeof q"
proof -
  show "q_push q rcd = Some (ok, q') \<Longrightarrow> q_sizeof q' = q_sizeof q"
    by (auto simp: q_push_def q_sizeof_def Let_def
        split: if_splits pointer.splits option.splits)
  show "q_pop q rcd = Some (ok, q', rcd') \<Longrightarrow> q_sizeof q' = q_sizeof q"
    by (auto simp: q_pop_def q_sizeof_def Let_def split: if_splits option.splits)
  show "q_peek q rcd = Some (ok, q', rcd') \<Longrightarrow> q_sizeof q' = q_sizeof q"
    by (auto simp: q_peek_def q_sizeof_def Let_def split: if_splits option.splits)
  show "q_drop q = (ok, q') \<Longrightarrow> q_sizeof q' = q_sizeof q"
    by (auto simp: q_drop_def q_sizeof_def Let_def split: if_splits)
  show "q_sizeof (q_flush q) = q_sizeof q"
    by (simp add: q_clean_def q_sizeof_def)
qed

section \<open>Reading a slot of a ready ring\<close>

text \<open>
  In a ready ring every slot lies inside the block, so the copy out of a slot is defined
  and yields the bytes of the slot followed by the rest of the caller's buffer.
\<close>

lemma slot_in_block: "i < n \<Longrightarrow> s * i + s \<le> n * (s::nat)"
proof -
  assume "i < n"
  then have "Suc i \<le> n" by simp
  then have "s * Suc i \<le> s * n" by (rule mult_le_mono2)
  then show ?thesis by (simp add: mult.commute)
qed

lemma copy_out_block:
  assumes "queue q = Alloc mem" and "length mem = unat (rec_nb q) * unat (rec_sz q)"
    and "i < unat (rec_nb q)" and "unat (rec_sz q) \<le> length buf"
  shows "copy_out q (unat (rec_sz q) * i) buf = Some (slot q i @ drop (unat (rec_sz q)) buf)"
proof -
  have "unat (rec_sz q) * i + unat (rec_sz q) \<le> length mem"
    using assms(2,3) slot_in_block by simp
  then show ?thesis
    using assms(1,4) by (simp add: copy_out_def memcpy_def slot_def storage_def)
qed

lemma length_slot:
  assumes "queue q = Alloc mem" and "length mem = unat (rec_nb q) * unat (rec_sz q)"
    and "i < unat (rec_nb q)"
  shows "length (slot q i) = unat (rec_sz q)"
proof -
  have "unat (rec_sz q) * i + unat (rec_sz q) \<le> length mem"
    using assms(2,3) slot_in_block by simp
  then show ?thesis using assms(1) by (simp add: slot_def storage_def)
qed

lemma ready_block:
  "ready q \<Longrightarrow> \<exists>mem. queue q = Alloc mem \<and> length mem = unat (rec_nb q) * unat (rec_sz q)"
  by (auto simp: ready_def split: pointer.splits)

lemma ready_cursors:
  "ready q \<Longrightarrow> unat (in' q) < unat (rec_nb q) \<and> unat (out q) < unat (rec_nb q)"
  by (simp add: ready_def word_less_nat_alt)

lemma copy_out_ready:
  assumes "ready q" and "i < unat (rec_nb q)" and "unat (rec_sz q) \<le> length buf"
  shows "copy_out q (unat (rec_sz q) * i) buf = Some (slot q i @ drop (unat (rec_sz q)) buf)"
  using ready_block [OF assms(1)] copy_out_block assms(2,3) by blast

lemma q_peek_ready:
  assumes "ready q" and "unat (rec_sz q) \<le> length buf"
  shows "q_peek q buf =
           (if q_isEmpty q then Some (False, q, buf)
            else if impl q = FIFO
              then Some (True, q, slot q (unat (out q)) @ drop (unat (rec_sz q)) buf)
            else if impl q = LIFO
              then Some (True, q, slot q (unat (DEC_IDX (in' q) (rec_nb q) 0))
                                    @ drop (unat (rec_sz q)) buf)
            else Some (False, q, buf))"
proof -
  have o: "unat (out q) < unat (rec_nb q)" using ready_cursors [OF assms(1)] by simp
  have wo: "out q < rec_nb q" using assms(1) by (simp add: ready_def)
  have "in' q < rec_nb q" using assms(1) by (simp add: ready_def)
  then have wd: "DEC_IDX (in' q) (rec_nb q) 0 < rec_nb q" by (rule DEC_IDX_less)
  then have d: "unat (DEC_IDX (in' q) (rec_nb q) 0) < unat (rec_nb q)"
    by (simp add: word_less_nat_alt)
  show ?thesis
    using copy_out_ready [OF assms(1) o assms(2)] copy_out_ready [OF assms(1) d assms(2)]
    by (simp add: q_peek_def Let_def int_mul_ready [OF assms(1) wo]
        int_mul_ready [OF assms(1) wd])
qed

section \<open>Peek\<close>

text \<open>
  C4. On a ready ring \<open>q_peek\<close> returns the struct it was given, so \<open>in\<close>, \<open>out\<close>,
  \<open>cnt\<close> and the storage are unchanged, and a second \<open>q_peek\<close> right after the first
  returns the same flag and, when the flag is true, the same record bytes (the first
  \<open>rec_sz\<close> bytes of the caller's buffer), in FIFO and in LIFO mode; into equal buffers
  the two calls leave equal buffers. The flag is true exactly when the ring is not empty
  and the mode is FIFO or LIFO.
\<close>

theorem q_peek_no_change:
  assumes "ready q" and "unat (rec_sz q) \<le> length b1" and "unat (rec_sz q) \<le> length b2"
  shows "\<exists>ok r1 r2. q_peek q b1 = Some (ok, q, r1) \<and> q_peek q b2 = Some (ok, q, r2)
           \<and> (ok \<longrightarrow> take (unat (rec_sz q)) r1 = take (unat (rec_sz q)) r2)
           \<and> (b1 = b2 \<longrightarrow> r1 = r2)
           \<and> (ok \<longleftrightarrow> \<not> q_isEmpty q \<and> (impl q = FIFO \<or> impl q = LIFO))"
proof -
  obtain mem where m: "queue q = Alloc mem" "length mem = unat (rec_nb q) * unat (rec_sz q)"
    using ready_block [OF assms(1)] by blast
  have o: "unat (out q) < unat (rec_nb q)" using ready_cursors [OF assms(1)] by simp
  have "in' q < rec_nb q" using assms(1) by (simp add: ready_def)
  then have "DEC_IDX (in' q) (rec_nb q) 0 < rec_nb q" by (rule DEC_IDX_less)
  then have d: "unat (DEC_IDX (in' q) (rec_nb q) 0) < unat (rec_nb q)"
    by (simp add: word_less_nat_alt)
  have l: "length (slot q (unat (out q))) = unat (rec_sz q)"
     "length (slot q (unat (DEC_IDX (in' q) (rec_nb q) 0))) = unat (rec_sz q)"
    using length_slot [OF m o] length_slot [OF m d] by simp_all
  show ?thesis
    unfolding q_peek_ready [OF assms(1,2)] q_peek_ready [OF assms(1,3)]
    using l by (auto simp: FIFO_def LIFO_def)
qed

text \<open>The theorem at a FIFO ring holding one record, peeked into two different buffers.\<close>

theorem q_peek_no_change_witness:
  "ready (ring_example FIFO False [5, 6] 1 0 1)
   \<and> unat (rec_sz (ring_example FIFO False [5, 6] 1 0 1)) \<le> length [9 :: uint8_t]
   \<and> unat (rec_sz (ring_example FIFO False [5, 6] 1 0 1)) \<le> length [8 :: uint8_t, 7]
   \<and> q_peek (ring_example FIFO False [5, 6] 1 0 1) [9]
        = Some (True, ring_example FIFO False [5, 6] 1 0 1, [5])
   \<and> q_peek (ring_example FIFO False [5, 6] 1 0 1) [8, 7]
        = Some (True, ring_example FIFO False [5, 6] 1 0 1, [5, 7])"
proof -
  have r: "ready (ring_example FIFO False [5, 6] 1 0 1)"
    by (simp add: ready_def ring_example_def int_mul_def INT_MAX_def q_isInitialized_def QUEUE_INITIALIZED_def)
  have a: "unat (rec_sz (ring_example FIFO False [5, 6] 1 0 1)) \<le> length [9 :: uint8_t]"
    by (simp add: ring_example_def int_mul_def INT_MAX_def)
  have b: "unat (rec_sz (ring_example FIFO False [5, 6] 1 0 1)) \<le> length [8 :: uint8_t, 7]"
    by (simp add: ring_example_def int_mul_def INT_MAX_def)
  have p1: "q_peek (ring_example FIFO False [5, 6] 1 0 1) [9]
        = Some (True, ring_example FIFO False [5, 6] 1 0 1, [5])"
    by (simp add: q_peek_def ring_example_def int_mul_def INT_MAX_def q_isEmpty_def copy_out_def memcpy_def)
  have p2: "q_peek (ring_example FIFO False [5, 6] 1 0 1) [8, 7]
        = Some (True, ring_example FIFO False [5, 6] 1 0 1, [5, 7])"
    by (simp add: q_peek_def ring_example_def int_mul_def INT_MAX_def q_isEmpty_def copy_out_def memcpy_def)
  show ?thesis
    using r a b p1 p2 q_peek_no_change [OF r a b] by simp
qed

section \<open>Rings that are not ready\<close>

text \<open>
  C8, as stated, fails: no operation other than \<open>q_init\<close> reads the control value, and
  \<open>q_flush\<close> and \<open>q_kill\<close> return nothing. On a struct whose control value is not set,
  \<open>q_flush\<close> resets the cursors and the count; on one that has storage, \<open>q_push\<close> writes
  the record and returns true, \<open>q_pop\<close> hands the record back and returns true, and
  \<open>q_kill\<close> releases the storage.
\<close>

theorem not_ready_calls_counterexample:
  "\<not> q_isInitialized (zero_Queue\<lparr>in' := 1, cnt := 1\<rparr>)
   \<and> q_flush (zero_Queue\<lparr>in' := 1, cnt := 1\<rparr>) = zero_Queue
   \<and> zero_Queue \<noteq> zero_Queue\<lparr>in' := 1, cnt := 1\<rparr>
   \<and> \<not> q_isInitialized ((ring_example FIFO False [5, 6] 1 0 1)\<lparr>init := 0\<rparr>)
   \<and> q_push ((ring_example FIFO False [5, 6] 1 0 1)\<lparr>init := 0\<rparr>) [9]
        = Some (True, (ring_example FIFO False [5, 9] 0 0 2)\<lparr>init := 0\<rparr>)
   \<and> q_pop ((ring_example FIFO False [5, 6] 1 0 1)\<lparr>init := 0\<rparr>) [9]
        = Some (True, (ring_example FIFO False [5, 6] 1 1 0)\<lparr>init := 0\<rparr>, [5])
   \<and> queue ((ring_example FIFO False [5, 6] 1 0 1)\<lparr>init := 0\<rparr>) = Alloc [5, 6]
   \<and> map_option queue (q_kill ((ring_example FIFO False [5, 6] 1 0 1)\<lparr>init := 0\<rparr>))
        = Some Invalid"
  by (simp add: q_isInitialized_def QUEUE_INITIALIZED_def zero_Queue_def q_clean_def
      ring_example_def int_mul_def INT_MAX_def q_push_def q_pop_def q_kill_def q_isFull_def
      q_isEmpty_def memcpy_def copy_out_def INC_IDX_def FIFO_def Let_def)

text \<open>
  C8, amended. \<open>q_push\<close>, \<open>q_pop\<close>, \<open>q_peek\<close>, \<open>q_drop\<close> and \<open>q_flush\<close> neither read
  nor write the control value: on a struct whose control value is \<open>v\<close> each returns
  what it returns on the same struct with any other control value, and leaves the control
  value \<open>v\<close>. \<open>q_kill\<close> does not read it either: whether it is defined, and the pointer it
  leaves, are the same whatever the control value. What \<open>q_kill\<close> does to the control
  value is not part of the statement.
\<close>

theorem calls_ignore_init:
  "q_push (q\<lparr>init := v\<rparr>) rcd
     = map_option (\<lambda>(ok, q'). (ok, q'\<lparr>init := v\<rparr>)) (q_push q rcd)
   \<and> q_pop (q\<lparr>init := v\<rparr>) rcd
     = map_option (\<lambda>(ok, q', rcd'). (ok, q'\<lparr>init := v\<rparr>, rcd')) (q_pop q rcd)
   \<and> q_peek (q\<lparr>init := v\<rparr>) rcd
     = map_option (\<lambda>(ok, q', rcd'). (ok, q'\<lparr>init := v\<rparr>, rcd')) (q_peek q rcd)
   \<and> q_drop (q\<lparr>init := v\<rparr>) = (fst (q_drop q), (snd (q_drop q))\<lparr>init := v\<rparr>)
   \<and> q_flush (q\<lparr>init := v\<rparr>) = (q_flush q)\<lparr>init := v\<rparr>
   \<and> map_option queue (q_kill (q\<lparr>init := v\<rparr>)) = map_option queue (q_kill q)"
proof -
  have "q_push (q\<lparr>init := v\<rparr>) rcd
     = map_option (\<lambda>(ok, q'). (ok, q'\<lparr>init := v\<rparr>)) (q_push q rcd)"
    by (simp add: q_push_def q_isFull_def Let_def split: pointer.splits option.splits)
  moreover have "q_pop (q\<lparr>init := v\<rparr>) rcd
     = map_option (\<lambda>(ok, q', rcd'). (ok, q'\<lparr>init := v\<rparr>, rcd')) (q_pop q rcd)"
    by (simp add: q_pop_def q_isEmpty_def copy_out_def Let_def
        split: pointer.splits option.splits)
  moreover have "q_peek (q\<lparr>init := v\<rparr>) rcd
     = map_option (\<lambda>(ok, q', rcd'). (ok, q'\<lparr>init := v\<rparr>, rcd')) (q_peek q rcd)"
    by (simp add: q_peek_def q_isEmpty_def copy_out_def Let_def
        split: pointer.splits option.splits)
  moreover have "q_drop (q\<lparr>init := v\<rparr>) = (fst (q_drop q), (snd (q_drop q))\<lparr>init := v\<rparr>)"
    by (simp add: q_drop_def q_isEmpty_def Let_def)
  moreover have "q_flush (q\<lparr>init := v\<rparr>) = (q_flush q)\<lparr>init := v\<rparr>"
    by (simp add: q_clean_def)
  moreover have "map_option queue (q_kill (q\<lparr>init := v\<rparr>)) = map_option queue (q_kill q)"
    by (simp add: q_kill_def split: pointer.splits)
  ultimately show ?thesis by blast
qed

section \<open>The count stays within the capacity\<close>

text \<open>Each operation keeps \<open>cnt \<le> rec_nb\<close>.\<close>

lemma cnt_q_init: "q_init malloc q0 size_rec nb_recs type overwrite = Some q \<Longrightarrow> cnt q = 0"
  by (auto simp: q_init_def q_clean_def q_kill_def Let_def split: if_splits option.splits pointer.splits)

lemma cnt_le_q_push:
  assumes "cnt q \<le> rec_nb q" and "q_push q rcd = Some (ok, q')"
  shows "cnt q' \<le> rec_nb q'"
proof -
  have "cnt q \<noteq> rec_nb q \<Longrightarrow> cnt q + 1 \<le> rec_nb q"
    using assms(1) by (simp add: inc_le)
  then show ?thesis
    using assms
    by (auto simp: q_push_def q_isFull_def Let_def split: if_splits pointer.splits option.splits)
qed

lemma cnt_dec_le:
  assumes "(c::16 word) \<le> n" and "c \<noteq> 0"
  shows "c - 1 \<le> n"
proof -
  have "unat (c - 1) = unat c - 1" using assms(2) by (simp add: unat_minus_one)
  moreover have "unat c \<le> unat n" using assms(1) by (simp add: word_le_nat_alt)
  ultimately show ?thesis by (simp add: word_le_nat_alt)
qed

lemma cnt_le_q_pop:
  assumes "cnt q \<le> rec_nb q" and "q_pop q rcd = Some (ok, q', rcd')"
  shows "cnt q' \<le> rec_nb q'"
  using assms cnt_dec_le [of "cnt q" "rec_nb q"]
  by (auto simp: q_pop_def q_isEmpty_def Let_def split: if_splits option.splits)

lemma cnt_le_q_peek:
  assumes "cnt q \<le> rec_nb q" and "q_peek q rcd = Some (ok, q', rcd')"
  shows "cnt q' \<le> rec_nb q'"
  using assms
  by (auto simp: q_peek_def Let_def split: if_splits option.splits)

lemma cnt_le_q_drop:
  assumes "cnt q \<le> rec_nb q" and "q_drop q = (ok, q')"
  shows "cnt q' \<le> rec_nb q'"
  using assms cnt_dec_le [of "cnt q" "rec_nb q"]
  by (auto simp: q_drop_def q_isEmpty_def Let_def split: if_splits)

lemma cnt_le_q_kill:
  assumes "cnt q \<le> rec_nb q" and "q_kill q = Some q'"
  shows "cnt q' \<le> rec_nb q'"
  using assms by (auto simp: q_kill_def split: pointer.splits)

lemma reachable_cnt_le: "reachable q \<Longrightarrow> cnt q \<le> rec_nb q"
proof (induction rule: reachable.induct)
  case (r_init nb_recs malloc q0 size_rec type overwrite q)
  then show ?case using cnt_q_init by simp
next
  case (r_push q rcd ok q')
  then show ?case using cnt_le_q_push by blast
next
  case (r_pop q rcd ok q' rcd')
  then show ?case using cnt_le_q_pop by blast
next
  case (r_peek q rcd ok q' rcd')
  then show ?case using cnt_le_q_peek by blast
next
  case (r_drop q ok q')
  then show ?case using cnt_le_q_drop by blast
next
  case (r_flush q)
  then show ?case by (simp add: q_clean_def)
next
  case (r_kill q q')
  then show ?case using cnt_le_q_kill by blast
qed

text \<open>
  C6. In every state reached from a \<open>q_init\<close> with positive capacity by any sequence
  of operations, \<open>0 \<le> cnt \<le> rec_nb\<close>, \<open>q_isEmpty\<close> is true iff \<open>cnt = 0\<close> and
  \<open>q_isFull\<close> is true iff \<open>cnt = rec_nb\<close>.
\<close>

theorem reachable_count_bounds:
  assumes "reachable q"
  shows "0 \<le> unat (cnt q) \<and> unat (cnt q) \<le> unat (rec_nb q)
         \<and> (q_isEmpty q \<longleftrightarrow> unat (cnt q) = 0)
         \<and> (q_isFull q \<longleftrightarrow> unat (cnt q) = unat (rec_nb q))"
proof -
  have "unat (cnt q) \<le> unat (rec_nb q)"
    using reachable_cnt_le [OF assms] by (simp add: word_le_nat_alt)
  moreover have "q_isEmpty q \<longleftrightarrow> unat (cnt q) = 0"
    by (simp add: q_isEmpty_def unat_eq_zero)
  moreover have "q_isFull q \<longleftrightarrow> unat (cnt q) = unat (rec_nb q)"
    unfolding q_isFull_def using word_unat_eq_iff [of "cnt q" "rec_nb q"] by simp
  ultimately show ?thesis by simp
qed

text \<open>The theorem at the state after \<open>q_init\<close> of two one-byte slots and one push.\<close>

theorem reachable_count_bounds_witness:
  "reachable (ring_example FIFO False [7, 0] 1 0 1)
   \<and> unat (cnt (ring_example FIFO False [7, 0] 1 0 1))
        \<le> unat (rec_nb (ring_example FIFO False [7, 0] 1 0 1))
   \<and> \<not> q_isEmpty (ring_example FIFO False [7, 0] 1 0 1)
   \<and> \<not> q_isFull (ring_example FIFO False [7, 0] 1 0 1)"
proof -
  have z: "replicate 2 (0 :: uint8_t) = [0, 0]"
    by (simp add: numeral_2_eq_2)
  have i: "q_init malloc_zero zero_Queue 1 2 FIFO False
             = Some (ring_example FIFO False [0, 0] 0 0 0)"
    by (simp add: q_init_def q_clean_def malloc_zero_def zero_Queue_def int_mul_def INT_MAX_def ring_example_def int_mul_def INT_MAX_def
        FIFO_def z)
  have p: "q_push (ring_example FIFO False [0, 0] 0 0 0) [7]
             = Some (True, ring_example FIFO False [7, 0] 1 0 1)"
    by (simp add: q_push_def ring_example_def int_mul_def INT_MAX_def q_isFull_def memcpy_def INC_IDX_def Let_def)
  have "reachable (ring_example FIFO False [0, 0] 0 0 0)"
    using i by (rule reachable.r_init [rotated]) simp
  then have r: "reachable (ring_example FIFO False [7, 0] 1 0 1)"
    using p by (rule reachable.r_push)
  show ?thesis
    using r reachable_count_bounds [OF r]
    by (simp add: ring_example_def int_mul_def INT_MAX_def)
qed

section \<open>Writing a slot\<close>

text \<open>
  The block after \<^verbatim>\<open>memcpy\<close> into slot \<open>i\<close>: its length is unchanged, slot \<open>i\<close> holds
  the bytes copied, every other slot holds what it held.
\<close>

lemma slot_below: "j < i \<Longrightarrow> s * j + s \<le> s * (i::nat)"
proof -
  assume "j < i"
  then have "Suc j \<le> i" by simp
  then have "s * Suc j \<le> s * i" by (rule mult_le_mono2)
  then show ?thesis by simp
qed

lemma write_length:
  assumes "s * i + s \<le> length mem" and "s \<le> length r"
  shows "length (take (s * i) mem @ take s r @ drop (s * i + s) mem) = length mem"
  using assms by simp

lemma write_read_same:
  assumes "s * i + s \<le> length mem" and "s \<le> length r"
  shows "take s (drop (s * i) (take (s * i) mem @ take s r @ drop (s * i + s) mem)) = take s r"
  using assms by simp

lemma write_read_other:
  assumes "s * i + s \<le> length mem" and "s \<le> length r" and "j \<noteq> i"
  shows "take s (drop (s * j) (take (s * i) mem @ take s r @ drop (s * i + s) mem))
           = take s (drop (s * j) mem)"
proof (cases "j < i")
  case True
  then have a: "s * j + s \<le> s * i" by (rule slot_below)
  let ?A = "take (s * i) mem" and ?X = "take s r @ drop (s * i + s) mem"
  have la: "length ?A = s * i" using assms(1) by simp
  from a have b: "s * j \<le> s * i" by linarith
  have "drop (s * j) (?A @ ?X) = drop (s * j) ?A @ ?X"
    using b la by simp
  moreover have "s \<le> length (drop (s * j) ?A)" using a la by simp
  ultimately have "take s (drop (s * j) (?A @ ?X)) = take s (drop (s * j) ?A)"
    by simp
  also have "drop (s * j) ?A = take (s * i - s * j) (drop (s * j) mem)"
    by (simp add: drop_take)
  also have "take s (take (s * i - s * j) (drop (s * j) mem)) = take s (drop (s * j) mem)"
    using a by (simp add: min_def)
  finally show ?thesis .
next
  case False
  with assms(3) have "i < j" by simp
  then have a: "s * i + s \<le> s * j" by (rule slot_below)
  let ?A = "take (s * i) mem" and ?B = "take s r" and ?C = "drop (s * i + s) mem"
  have la: "length (?A @ ?B) = s * i + s" using assms(1,2) by simp
  have "drop (s * j) ((?A @ ?B) @ ?C) = drop (s * j - (s * i + s)) ?C"
    using a la by (simp del: append_assoc length_append)
  also have "\<dots> = drop (s * j) mem" using a by simp
  finally show ?thesis by simp
qed

section \<open>Push on a ready ring\<close>

text \<open>
  The struct after a \<open>q_push\<close> that does not return early, field by field, and the
  facts about it: it is ready again, and its slots are the old ones but for slot \<open>in\<close>.
\<close>

lemma q_isFull_upd [simp]:
  "q_isFull (q\<lparr>queue := m\<rparr>) = q_isFull q"
  "q_isFull (q\<lparr>in' := i\<rparr>) = q_isFull q"
  "q_isFull (q\<lparr>out := i\<rparr>) = q_isFull q"
  by (simp_all add: q_isFull_def)

lemma q_push_eq:
  assumes "queue q = Alloc mem"
    and "unat (rec_sz q) * unat (in' q) + unat (rec_sz q) \<le> length mem"
    and "unat (rec_sz q) \<le> length rcd"
    and "ovw q \<or> \<not> q_isFull q"
    and im: "int_mul (rec_sz q) (in' q) = Some (unat (rec_sz q) * unat (in' q))"
  shows "q_push q rcd =
           Some (True,
             q\<lparr>queue := Alloc (take (unat (rec_sz q) * unat (in' q)) mem
                                 @ take (unat (rec_sz q)) rcd
                                 @ drop (unat (rec_sz q) * unat (in' q) + unat (rec_sz q)) mem),
               in' := INC_IDX (in' q) (rec_nb q) 0,
               out := (if q_isFull q \<and> impl q = FIFO
                       then INC_IDX (out q) (rec_nb q) 0 else out q),
               cnt := (if q_isFull q then cnt q else cnt q + 1)\<rparr>)"
proof -
  have m: "memcpy mem (unat (rec_sz q) * unat (in' q)) rcd 0 (unat (rec_sz q))
             = Some (take (unat (rec_sz q) * unat (in' q)) mem
                     @ take (unat (rec_sz q)) rcd
                     @ drop (unat (rec_sz q) * unat (in' q) + unat (rec_sz q)) mem)"
    using assms(2,3) by (simp add: memcpy_def)
  show ?thesis
  proof (cases "q_isFull q")
    case False
    then show ?thesis
      unfolding q_push_def using assms(1) m im by (simp add: Let_def)
  next
    case True
    with assms(4) have o: "ovw q" by simp
    show ?thesis
    proof (cases "impl q = FIFO")
      case True
      with \<open>q_isFull q\<close> o show ?thesis
        unfolding q_push_def using assms(1) m im by (simp add: Let_def)
    next
      case False
      with \<open>q_isFull q\<close> o show ?thesis
        unfolding q_push_def using assms(1) m im by (simp add: Let_def)
    qed
  qed
qed

lemma unat_cnt_Suc:
  assumes "(c::16 word) \<le> n" and "c \<noteq> n"
  shows "unat (c + 1) = unat c + 1"
proof -
  have "unat c \<le> unat n" using assms(1) by (simp add: word_le_nat_alt)
  moreover have "unat c \<noteq> unat n" using assms(2) by (simp add: word_unat_eq_iff)
  ultimately have "unat c + 1 < 65536" using unat_u16_bound [of n] by linarith
  then show ?thesis by (simp add: unat_word_ariths)
qed

lemma q_push_ready:
  assumes r: "ready q" and l: "unat (rec_sz q) \<le> length rcd" and g: "ovw q \<or> \<not> q_isFull q"
  shows "\<exists>q'. q_push q rcd = Some (True, q') \<and> ready q'
           \<and> rec_nb q' = rec_nb q \<and> rec_sz q' = rec_sz q
           \<and> impl q' = impl q \<and> ovw q' = ovw q
           \<and> in' q' = INC_IDX (in' q) (rec_nb q) 0
           \<and> out q' = (if q_isFull q \<and> impl q = FIFO
                        then INC_IDX (out q) (rec_nb q) 0 else out q)
           \<and> cnt q' = (if q_isFull q then cnt q else cnt q + 1)
           \<and> (\<forall>j < unat (rec_nb q).
                  slot q' j = (if j = unat (in' q) then take (unat (rec_sz q)) rcd
                               else slot q j))"
proof -
  obtain mem where m: "queue q = Alloc mem" "length mem = unat (rec_nb q) * unat (rec_sz q)"
    using ready_block [OF r] by blast
  let ?s = "unat (rec_sz q)" and ?i = "unat (in' q)" and ?n = "unat (rec_nb q)"
  let ?o = "unat (out q)" and ?c = "unat (cnt q)"
  have i: "?i < ?n" and o: "?o < ?n" using ready_cursors [OF r] by simp_all
  have b: "?s * ?i + ?s \<le> length mem" using m(2) i slot_in_block by simp
  let ?M = "take (?s * ?i) mem @ take ?s rcd @ drop (?s * ?i + ?s) mem"
  let ?q' = "q\<lparr>queue := Alloc ?M,
               in' := INC_IDX (in' q) (rec_nb q) 0,
               out := (if q_isFull q \<and> impl q = FIFO
                       then INC_IDX (out q) (rec_nb q) 0 else out q),
               cnt := (if q_isFull q then cnt q else cnt q + 1)\<rparr>"
  have wi: "in' q < rec_nb q" and wo: "out q < rec_nb q" and wc: "cnt q \<le> rec_nb q"
    and wf: "impl q = FIFO \<longrightarrow> ?i = (?o + ?c) mod ?n"
    and wb: "?n * ?s \<le> INT_MAX"
    using r by (simp_all add: ready_def)
  have e: "q_push q rcd = Some (True, ?q')"
    using m(1) b l g int_mul_ready [OF r wi] by (rule q_push_eq)
  have i': "INC_IDX (in' q) (rec_nb q) 0 < rec_nb q" using wi by (rule INC_IDX_less)
  have o': "INC_IDX (out q) (rec_nb q) 0 < rec_nb q" using wo by (rule INC_IDX_less)
  have lm: "length ?M = ?n * ?s" using write_length [OF b l] m(2) by simp
  have c': "(if q_isFull q then cnt q else cnt q + 1) \<le> rec_nb q"
    using wc by (simp add: q_isFull_def inc_le)
  have f': "impl q = FIFO \<longrightarrow>
      unat (INC_IDX (in' q) (rec_nb q) 0)
        = (unat (if q_isFull q then INC_IDX (out q) (rec_nb q) 0 else out q)
           + unat (if q_isFull q then cnt q else cnt q + 1)) mod ?n"
  proof
    assume fi: "impl q = FIFO"
    with wf have eq: "?i = (?o + ?c) mod ?n" by simp
    show "unat (INC_IDX (in' q) (rec_nb q) 0)
        = (unat (if q_isFull q then INC_IDX (out q) (rec_nb q) 0 else out q)
           + unat (if q_isFull q then cnt q else cnt q + 1)) mod ?n"
    proof (cases "q_isFull q")
      case True
      then have "?c = ?n" by (simp add: q_isFull_def split: if_splits)
      with eq o have "?i = ?o" by simp
      with True \<open>?c = ?n\<close> show ?thesis
        by (simp add: unat_INC_IDX [OF wi] unat_INC_IDX [OF wo])
    next
      case False
      then have "cnt q \<noteq> rec_nb q" by (simp add: q_isFull_def split: if_splits)
      then have "unat (cnt q + 1) = ?c + 1" using wc unat_cnt_Suc by blast
      moreover have "(?i + 1) mod ?n = (?o + (?c + 1)) mod ?n"
        using eq by (simp add: mod_Suc_eq)
      ultimately show ?thesis using False by (simp add: unat_INC_IDX [OF wi])
    qed
  qed
  have wr: "init q = QUEUE_INITIALIZED"
    using r by (simp add: ready_def q_isInitialized_def split: if_splits)
  have rdy: "ready ?q'"
    unfolding ready_def q_isInitialized_def using wr wo wb i' o' c' f' lm
    by simp
  have sl: "\<And>j. j < ?n \<Longrightarrow> slot ?q' j = (if j = ?i then take ?s rcd else slot q j)"
    using write_read_same [OF b l] write_read_other [OF b l] m(1)
    by (simp add: slot_def storage_def)
  show ?thesis
    using e rdy sl by (intro exI [of _ ?q']) simp
qed

section \<open>Pop on a ready ring\<close>

lemma FIFO_neq_LIFO: "FIFO \<noteq> LIFO"
  by (simp add: FIFO_def LIFO_def)

lemma copy_out_upd [simp]:
  "copy_out (q\<lparr>in' := i\<rparr>) p buf = copy_out q p buf"
  "copy_out (q\<lparr>out := i\<rparr>) p buf = copy_out q p buf"
  "copy_out (q\<lparr>cnt := i\<rparr>) p buf = copy_out q p buf"
  by (simp_all add: copy_out_def split: pointer.splits)

lemma slot_upd [simp]:
  "slot (q\<lparr>in' := i\<rparr>) j = slot q j"
  "slot (q\<lparr>out := i\<rparr>) j = slot q j"
  "slot (q\<lparr>cnt := i\<rparr>) j = slot q j"
  by (simp_all add: slot_def storage_def)

lemma q_pop_fifo_eq:
  assumes r: "ready q" and l: "unat (rec_sz q) \<le> length buf"
    and ne: "\<not> q_isEmpty q" and f: "impl q = FIFO"
  shows "q_pop q buf =
           Some (True, q\<lparr>out := INC_IDX (out q) (rec_nb q) 0, cnt := cnt q - 1\<rparr>,
                 slot q (unat (out q)) @ drop (unat (rec_sz q)) buf)"
proof -
  have o: "unat (out q) < unat (rec_nb q)" using ready_cursors [OF r] by simp
  have c: "copy_out q (unat (rec_sz q) * unat (out q)) buf
             = Some (slot q (unat (out q)) @ drop (unat (rec_sz q)) buf)"
    using r o l by (rule copy_out_ready)
  have wo: "out q < rec_nb q" using r by (simp add: ready_def)
  show ?thesis
    unfolding q_pop_def using ne f c int_mul_ready [OF r wo] by (simp add: Let_def)
qed

lemma q_pop_lifo_eq:
  assumes r: "ready q" and l: "unat (rec_sz q) \<le> length buf"
    and ne: "\<not> q_isEmpty q" and f: "impl q = LIFO"
  shows "q_pop q buf =
           Some (True, q\<lparr>in' := DEC_IDX (in' q) (rec_nb q) 0, cnt := cnt q - 1\<rparr>,
                 slot q (unat (DEC_IDX (in' q) (rec_nb q) 0)) @ drop (unat (rec_sz q)) buf)"
proof -
  have "in' q < rec_nb q" using r by (simp add: ready_def)
  then have wd: "DEC_IDX (in' q) (rec_nb q) 0 < rec_nb q" by (rule DEC_IDX_less)
  then have d: "unat (DEC_IDX (in' q) (rec_nb q) 0) < unat (rec_nb q)"
    by (simp add: word_less_nat_alt)
  have c: "copy_out q (unat (rec_sz q) * unat (DEC_IDX (in' q) (rec_nb q) 0)) buf
             = Some (slot q (unat (DEC_IDX (in' q) (rec_nb q) 0)) @ drop (unat (rec_sz q)) buf)"
    using r d l by (rule copy_out_ready)
  have nf: "impl q \<noteq> FIFO" using f FIFO_neq_LIFO by simp
  show ?thesis
    unfolding q_pop_def using ne f nf c int_mul_ready [OF r wd] by (simp add: Let_def)
qed

lemma ready_q_pop_fifo:
  assumes r: "ready q" and ne: "\<not> q_isEmpty q" and f: "impl q = FIFO"
  shows "ready (q\<lparr>out := INC_IDX (out q) (rec_nb q) 0, cnt := cnt q - 1\<rparr>)"
proof -
  let ?i = "unat (in' q)" and ?n = "unat (rec_nb q)"
  let ?o = "unat (out q)" and ?c = "unat (cnt q)"
  have wr: "init q = QUEUE_INITIALIZED"
    using r by (simp add: ready_def q_isInitialized_def split: if_splits)
  have wi: "in' q < rec_nb q" and wo: "out q < rec_nb q" and wc: "cnt q \<le> rec_nb q"
    and wf: "?i = (?o + ?c) mod ?n"
    and wb: "?n * unat (rec_sz q) \<le> INT_MAX"
    using r f by (simp_all add: ready_def)
  obtain mem where wq: "queue q = Alloc mem" "length mem = ?n * unat (rec_sz q)"
    using ready_block [OF r] by blast
  have c0: "cnt q \<noteq> 0" using ne by (simp add: q_isEmpty_def split: if_splits)
  have c1: "unat (cnt q - 1) = ?c - 1" using c0 by (simp add: unat_minus_one)
  have cp: "0 < ?c" using c0 by (simp add: unat_gt_0)
  have c': "cnt q - 1 \<le> rec_nb q" using wc c0 by (rule cnt_dec_le)
  have o': "INC_IDX (out q) (rec_nb q) 0 < rec_nb q" using wo by (rule INC_IDX_less)
  have "((?o + 1) mod ?n + (?c - 1)) mod ?n = (?o + 1 + (?c - 1)) mod ?n"
    by (rule mod_add_left_eq)
  also have "?o + 1 + (?c - 1) = ?o + ?c" using cp by simp
  finally have "?i = (unat (INC_IDX (out q) (rec_nb q) 0) + unat (cnt q - 1)) mod ?n"
    using wf c1 by (simp add: unat_INC_IDX [OF wo])
  then show ?thesis
    unfolding ready_def q_isInitialized_def using wr wi wb o' c' wq by simp
qed

lemma ready_q_pop_lifo:
  assumes r: "ready q" and ne: "\<not> q_isEmpty q" and f: "impl q = LIFO"
  shows "ready (q\<lparr>in' := DEC_IDX (in' q) (rec_nb q) 0, cnt := cnt q - 1\<rparr>)"
proof -
  have wr: "init q = QUEUE_INITIALIZED"
    using r by (simp add: ready_def q_isInitialized_def split: if_splits)
  have wi: "in' q < rec_nb q" and wo: "out q < rec_nb q" and wc: "cnt q \<le> rec_nb q"
    and wb: "unat (rec_nb q) * unat (rec_sz q) \<le> INT_MAX"
    using r by (simp_all add: ready_def)
  obtain mem where wq: "queue q = Alloc mem" "length mem = unat (rec_nb q) * unat (rec_sz q)"
    using ready_block [OF r] by blast
  have c0: "cnt q \<noteq> 0" using ne by (simp add: q_isEmpty_def split: if_splits)
  have c': "cnt q - 1 \<le> rec_nb q" using wc c0 by (rule cnt_dec_le)
  have i': "DEC_IDX (in' q) (rec_nb q) 0 < rec_nb q" using wi by (rule DEC_IDX_less)
  have nf: "impl q \<noteq> FIFO" using f FIFO_neq_LIFO by simp
  show ?thesis
    unfolding ready_def q_isInitialized_def using wr wo wb i' c' wq nf by simp
qed

section \<open>Cursor arithmetic modulo the capacity\<close>

lemma mod_add_neq:
  assumes "k < c" and "c < k + (n::nat)"
  shows "(a + k) mod n \<noteq> (a + c) mod n"
proof
  assume "(a + k) mod n = (a + c) mod n"
  then have "(a + c) mod n = (a + k) mod n" by simp
  moreover have "a + k \<le> a + c" using assms(1) by simp
  ultimately have "n dvd (a + c) - (a + k)" by (simp add: mod_eq_dvd_iff_nat)
  then have "n dvd c - k" by simp
  moreover have "0 < c - k" "c - k < n" using assms by simp_all
  ultimately show False using nat_dvd_not_less by blast
qed

lemma lifo_top: "i < n \<Longrightarrow> ((i + 1) mod n + n - Suc 0) mod n = (i::nat)"
  by (cases "i + 1 < n") (auto simp: mod_if)

lemma lifo_below_push:
  "i < n \<Longrightarrow> Suc k < n \<Longrightarrow> ((i + 1) mod n + n - Suc (Suc k)) mod n = (i + n - Suc k) mod (n::nat)"
  by (cases "i + 1 < n") (auto simp: mod_if)

lemma lifo_below_neq:
  "i < n \<Longrightarrow> Suc k < n \<Longrightarrow> (i + n - Suc k) mod n \<noteq> (i::nat)"
  by (cases "Suc k \<le> i") (auto simp: mod_if)

lemma lifo_below_pop:
  "i < n \<Longrightarrow> Suc k < n \<Longrightarrow> ((i + n - 1) mod n + n - Suc k) mod n = (i + n - Suc (Suc k)) mod (n::nat)"
  by (cases "0 < i") (auto simp: mod_if)

lemma fifo_next: "((o' + 1) mod n + k) mod n = (o' + Suc k) mod (n::nat)"
  by (simp add: mod_add_left_eq)

section \<open>What the ring holds after a push and after a pop\<close>

text \<open>
  In FIFO mode a push appends the record to the live records (dropping the oldest when
  the ring was full and overwrites), and a pop returns and removes the first. In LIFO mode
  a push puts the record in front (dropping the last when the ring was full and
  overwrites), and a pop returns and removes the first.
\<close>

lemma length_fifo_contents: "length (fifo_contents q) = unat (cnt q)"
  by (simp add: fifo_contents_def)

lemma length_lifo_contents: "length (lifo_contents q) = unat (cnt q)"
  by (simp add: lifo_contents_def)

lemma q_push_fifo:
  assumes r: "ready q" and f: "impl q = FIFO" and l: "length rcd = unat (rec_sz q)"
    and g: "ovw q \<or> \<not> q_isFull q"
  shows "\<exists>q'. q_push q rcd = Some (True, q') \<and> ready q' \<and> impl q' = FIFO
           \<and> rec_nb q' = rec_nb q \<and> rec_sz q' = rec_sz q \<and> ovw q' = ovw q
           \<and> fifo_contents q' =
               (if q_isFull q then tl (fifo_contents q) else fifo_contents q) @ [rcd]"
proof -
  let ?s = "unat (rec_sz q)" and ?i = "unat (in' q)" and ?n = "unat (rec_nb q)"
  let ?o = "unat (out q)" and ?c = "unat (cnt q)"
  have l': "?s \<le> length rcd" using l by simp
  obtain q' where p: "q_push q rcd = Some (True, q')" and r': "ready q'"
    and nb: "rec_nb q' = rec_nb q" and sz: "rec_sz q' = rec_sz q"
    and im: "impl q' = impl q" and ov: "ovw q' = ovw q"
    and i': "in' q' = INC_IDX (in' q) (rec_nb q) 0"
    and o': "out q' = (if q_isFull q \<and> impl q = FIFO
                       then INC_IDX (out q) (rec_nb q) 0 else out q)"
    and c': "cnt q' = (if q_isFull q then cnt q else cnt q + 1)"
    and sl: "\<forall>j < ?n. slot q' j = (if j = ?i then take ?s rcd else slot q j)"
    using q_push_ready [OF r l' g] by blast
  have sl': "\<And>j. j < ?n \<Longrightarrow> slot q' j = (if j = ?i then rcd else slot q j)"
    using sl l by simp
  have i: "?i < ?n" and o: "?o < ?n" using ready_cursors [OF r] by simp_all
  have n0: "0 < ?n" using i by simp
  have wo: "out q < rec_nb q" and wc: "cnt q \<le> rec_nb q"
    and wf: "?i = (?o + ?c) mod ?n"
    using r f by (simp_all add: ready_def)
  have cn: "?c \<le> ?n" using wc by (simp add: word_le_nat_alt)
  have "fifo_contents q' =
           (if q_isFull q then tl (fifo_contents q) else fifo_contents q) @ [rcd]"
  proof (cases "q_isFull q")
    case False
    then have ne: "cnt q \<noteq> rec_nb q" by (simp add: q_isFull_def split: if_splits)
    then have c1: "unat (cnt q') = Suc ?c" using c' False wc unat_cnt_Suc by simp
    from ne have "?c \<noteq> ?n" by (simp add: word_unat_eq_iff)
    with cn have lt: "?c < ?n" by simp
    have "map (\<lambda>k. slot q' ((?o + k) mod ?n)) [0..<?c]
            = map (\<lambda>k. slot q ((?o + k) mod ?n)) [0..<?c]"
    proof (rule map_cong [OF refl])
      fix k assume "k \<in> set [0..<?c]"
      then have k: "k < ?c" by simp
      then have "(?o + k) mod ?n \<noteq> (?o + ?c) mod ?n"
        using lt by (intro mod_add_neq) simp_all
      then show "slot q' ((?o + k) mod ?n) = slot q ((?o + k) mod ?n)"
        using sl' [of "(?o + k) mod ?n"] n0 wf by simp
    qed
    moreover have "slot q' ((?o + ?c) mod ?n) = rcd"
      using sl' [of "(?o + ?c) mod ?n"] n0 wf by simp
    ultimately show ?thesis
      using False c1 o' nb by (simp add: fifo_contents_def)
  next
    case True
    then have ce: "cnt q = rec_nb q" by (simp add: q_isFull_def split: if_splits)
    then have cn': "?c = ?n" by simp
    with wf o have io: "?i = ?o" by simp
    obtain m where m: "?n = Suc m" using n0 by (cases ?n) simp_all
    have o1: "unat (out q') = (?o + 1) mod ?n"
      using o' True f by (simp add: unat_INC_IDX [OF wo])
    have c1: "unat (cnt q') = Suc m" using c' True cn' m by simp
    have a: "map (\<lambda>k. slot q' (((?o + 1) mod ?n + k) mod ?n)) [0..<m]
            = map (\<lambda>k. slot q ((?o + Suc k) mod ?n)) [0..<m]"
    proof (rule map_cong [OF refl])
      fix k assume "k \<in> set [0..<m]"
      then have k: "k < m" by simp
      have "(?o + 0) mod ?n \<noteq> (?o + Suc k) mod ?n"
        using k m by (intro mod_add_neq) simp_all
      then have "(?o + Suc k) mod ?n \<noteq> ?i" using io o by simp
      then have "slot q' ((?o + Suc k) mod ?n) = slot q ((?o + Suc k) mod ?n)"
        using sl' [of "(?o + Suc k) mod ?n"] n0 by simp
      then show "slot q' (((?o + 1) mod ?n + k) mod ?n) = slot q ((?o + Suc k) mod ?n)"
        unfolding fifo_next .
    qed
    have "((?o + 1) mod ?n + m) mod ?n = (?o + ?n) mod ?n"
      unfolding fifo_next using m by simp
    then have "((?o + 1) mod ?n + m) mod ?n = ?i" using io o by simp
    then have b: "slot q' (((?o + 1) mod ?n + m) mod ?n) = rcd"
      using sl' [of ?i] i by simp
    have "tl (fifo_contents q) = map (\<lambda>k. slot q ((?o + k) mod ?n)) (tl [0..<Suc m])"
      using cn' m by (simp add: fifo_contents_def map_tl)
    also have "tl [0..<Suc m] = map Suc [0..<m]"
      by (simp add: map_Suc_upt del: upt_Suc)
    finally have t: "tl (fifo_contents q) = map (\<lambda>k. slot q ((?o + Suc k) mod ?n)) [0..<m]"
      by (simp add: comp_def)
    have "fifo_contents q' = map (\<lambda>k. slot q' (((?o + 1) mod ?n + k) mod ?n)) [0..<Suc m]"
      using o1 c1 nb by (simp add: fifo_contents_def)
    also have "\<dots> = map (\<lambda>k. slot q ((?o + Suc k) mod ?n)) [0..<m] @ [rcd]"
      using a b by simp
    finally show ?thesis using t True by simp
  qed
  then show ?thesis
    using p r' nb sz im ov f by (intro exI [of _ q']) simp
qed

lemma q_pop_fifo:
  assumes r: "ready q" and f: "impl q = FIFO" and l: "length buf = unat (rec_sz q)"
    and ne: "\<not> q_isEmpty q"
  shows "\<exists>q'. q_pop q buf = Some (True, q', hd (fifo_contents q)) \<and> ready q'
           \<and> impl q' = FIFO \<and> rec_nb q' = rec_nb q \<and> rec_sz q' = rec_sz q
           \<and> ovw q' = ovw q \<and> fifo_contents q' = tl (fifo_contents q)"
proof -
  let ?n = "unat (rec_nb q)" and ?o = "unat (out q)" and ?c = "unat (cnt q)"
  let ?q' = "q\<lparr>out := INC_IDX (out q) (rec_nb q) 0, cnt := cnt q - 1\<rparr>"
  have l': "unat (rec_sz q) \<le> length buf" using l by simp
  have o: "?o < ?n" using ready_cursors [OF r] by simp
  have wo: "out q < rec_nb q" using r by (simp add: ready_def)
  have c0: "cnt q \<noteq> 0" using ne by (simp add: q_isEmpty_def split: if_splits)
  then obtain m where m: "?c = Suc m" by (cases ?c) (simp_all add: unat_eq_zero)
  have c1: "unat (cnt q - 1) = m" using c0 m by (simp add: unat_minus_one)
  have h: "hd (fifo_contents q) = slot q ?o"
    using m o by (simp add: fifo_contents_def hd_map upt_conv_Cons del: upt_Suc)
  have "tl (fifo_contents q) = map (\<lambda>k. slot q ((?o + k) mod ?n)) (tl [0..<Suc m])"
    using m by (simp add: fifo_contents_def map_tl)
  also have "tl [0..<Suc m] = map Suc [0..<m]"
    by (simp add: map_Suc_upt del: upt_Suc)
  finally have t: "tl (fifo_contents q) = map (\<lambda>k. slot q ((?o + Suc k) mod ?n)) [0..<m]"
    by (simp add: comp_def)
  have "fifo_contents ?q' = map (\<lambda>k. slot q (((?o + 1) mod ?n + k) mod ?n)) [0..<m]"
    using c1 by (simp add: fifo_contents_def unat_INC_IDX [OF wo])
  then have t': "fifo_contents ?q' = tl (fifo_contents q)"
    unfolding fifo_next t .
  have e: "q_pop q buf = Some (True, ?q', hd (fifo_contents q))"
    using q_pop_fifo_eq [OF r l' ne f] l h by simp
  show ?thesis
    using e ready_q_pop_fifo [OF r ne f] t' f by (intro exI [of _ ?q']) simp
qed

lemma q_push_lifo:
  assumes r: "ready q" and f: "impl q = LIFO" and l: "length rcd = unat (rec_sz q)"
    and g: "ovw q \<or> \<not> q_isFull q"
  shows "\<exists>q'. q_push q rcd = Some (True, q') \<and> ready q' \<and> impl q' = LIFO
           \<and> rec_nb q' = rec_nb q \<and> rec_sz q' = rec_sz q \<and> ovw q' = ovw q
           \<and> lifo_contents q' =
               rcd # (if q_isFull q then butlast (lifo_contents q) else lifo_contents q)"
proof -
  let ?s = "unat (rec_sz q)" and ?i = "unat (in' q)" and ?n = "unat (rec_nb q)"
  let ?c = "unat (cnt q)"
  have l': "?s \<le> length rcd" using l by simp
  obtain q' where p: "q_push q rcd = Some (True, q')" and r': "ready q'"
    and nb: "rec_nb q' = rec_nb q" and sz: "rec_sz q' = rec_sz q"
    and im: "impl q' = impl q" and ov: "ovw q' = ovw q"
    and i': "in' q' = INC_IDX (in' q) (rec_nb q) 0"
    and c': "cnt q' = (if q_isFull q then cnt q else cnt q + 1)"
    and sl: "\<forall>j < ?n. slot q' j = (if j = ?i then take ?s rcd else slot q j)"
    using q_push_ready [OF r l' g] by blast
  have sl': "\<And>j. j < ?n \<Longrightarrow> slot q' j = (if j = ?i then rcd else slot q j)"
    using sl l by simp
  have i: "?i < ?n" using ready_cursors [OF r] by simp
  have n0: "0 < ?n" using i by simp
  have wi: "in' q < rec_nb q" and wc: "cnt q \<le> rec_nb q"
    using r by (simp_all add: ready_def)
  have cn: "?c \<le> ?n" using wc by (simp add: word_le_nat_alt)
  have i1: "unat (in' q') = (?i + 1) mod ?n" using i' by (simp add: unat_INC_IDX [OF wi])
  have top: "slot q' (((?i + 1) mod ?n + ?n - Suc 0) mod ?n) = rcd"
    unfolding lifo_top [OF i] using sl' [of ?i] i by simp
  have below: "\<And>k. Suc k < ?n \<Longrightarrow>
      slot q' (((?i + 1) mod ?n + ?n - Suc (Suc k)) mod ?n) = slot q ((?i + ?n - Suc k) mod ?n)"
  proof -
    fix k assume k: "Suc k < ?n"
    have "slot q' ((?i + ?n - Suc k) mod ?n) = slot q ((?i + ?n - Suc k) mod ?n)"
      using sl' [of "(?i + ?n - Suc k) mod ?n"] n0 lifo_below_neq [OF i k] by simp
    then show "slot q' (((?i + 1) mod ?n + ?n - Suc (Suc k)) mod ?n)
                 = slot q ((?i + ?n - Suc k) mod ?n)"
      unfolding lifo_below_push [OF i k] .
  qed
  have gen: "\<And>m. m < ?n \<Longrightarrow>
      map (\<lambda>k. slot q' (((?i + 1) mod ?n + ?n - Suc k) mod ?n)) [0..<Suc m]
        = rcd # map (\<lambda>k. slot q ((?i + ?n - Suc k) mod ?n)) [0..<m]"
  proof -
    fix m assume m: "m < ?n"
    have "map (\<lambda>k. slot q' (((?i + 1) mod ?n + ?n - Suc (Suc k)) mod ?n)) [0..<m]
            = map (\<lambda>k. slot q ((?i + ?n - Suc k) mod ?n)) [0..<m]"
    proof (rule map_cong [OF refl])
      fix k assume "k \<in> set [0..<m]"
      then have "Suc k < ?n" using m by simp
      then show "slot q' (((?i + 1) mod ?n + ?n - Suc (Suc k)) mod ?n)
                   = slot q ((?i + ?n - Suc k) mod ?n)"
        by (rule below)
    qed
    then show "map (\<lambda>k. slot q' (((?i + 1) mod ?n + ?n - Suc k) mod ?n)) [0..<Suc m]
        = rcd # map (\<lambda>k. slot q ((?i + ?n - Suc k) mod ?n)) [0..<m]"
      unfolding map_upt_Suc using top by simp
  qed
  have "lifo_contents q' =
          rcd # (if q_isFull q then butlast (lifo_contents q) else lifo_contents q)"
  proof (cases "q_isFull q")
    case False
    then have ne: "cnt q \<noteq> rec_nb q" by (simp add: q_isFull_def split: if_splits)
    then have c1: "unat (cnt q') = Suc ?c" using c' False wc unat_cnt_Suc by simp
    from ne have "?c \<noteq> ?n" by (simp add: word_unat_eq_iff)
    with cn have lt: "?c < ?n" by simp
    have "lifo_contents q'
            = map (\<lambda>k. slot q' (((?i + 1) mod ?n + ?n - Suc k) mod ?n)) [0..<Suc ?c]"
      unfolding lifo_contents_def i1 c1 nb ..
    also have "\<dots> = rcd # lifo_contents q"
      unfolding gen [OF lt] lifo_contents_def ..
    finally show ?thesis using False by simp
  next
    case True
    then have ce: "cnt q = rec_nb q" by (simp add: q_isFull_def split: if_splits)
    obtain m where m: "?n = Suc m" using n0 by (cases ?n) simp_all
    have c1: "unat (cnt q') = Suc m" using c' True ce m by simp
    have lt: "m < ?n" using m by simp
    have b: "butlast (lifo_contents q) = map (\<lambda>k. slot q ((?i + ?n - Suc k) mod ?n)) [0..<m]"
      using ce m by (simp add: lifo_contents_def map_butlast [symmetric])
    have "lifo_contents q'
            = map (\<lambda>k. slot q' (((?i + 1) mod ?n + ?n - Suc k) mod ?n)) [0..<Suc m]"
      unfolding lifo_contents_def i1 c1 nb ..
    also have "\<dots> = rcd # butlast (lifo_contents q)"
      unfolding gen [OF lt] b ..
    finally show ?thesis using True by simp
  qed
  then show ?thesis
    using p r' nb sz im ov f by (intro exI [of _ q']) simp
qed

lemma q_pop_lifo:
  assumes r: "ready q" and f: "impl q = LIFO" and l: "length buf = unat (rec_sz q)"
    and ne: "\<not> q_isEmpty q"
  shows "\<exists>q'. q_pop q buf = Some (True, q', hd (lifo_contents q)) \<and> ready q'
           \<and> impl q' = LIFO \<and> rec_nb q' = rec_nb q \<and> rec_sz q' = rec_sz q
           \<and> ovw q' = ovw q \<and> lifo_contents q' = tl (lifo_contents q)"
proof -
  let ?n = "unat (rec_nb q)" and ?i = "unat (in' q)" and ?c = "unat (cnt q)"
  let ?q' = "q\<lparr>in' := DEC_IDX (in' q) (rec_nb q) 0, cnt := cnt q - 1\<rparr>"
  have l': "unat (rec_sz q) \<le> length buf" using l by simp
  have i: "?i < ?n" using ready_cursors [OF r] by simp
  have wi: "in' q < rec_nb q" and wc: "cnt q \<le> rec_nb q"
    using r by (simp_all add: ready_def)
  have cn: "?c \<le> ?n" using wc by (simp add: word_le_nat_alt)
  have c0: "cnt q \<noteq> 0" using ne by (simp add: q_isEmpty_def split: if_splits)
  then obtain m where m: "?c = Suc m" by (cases ?c) (simp_all add: unat_eq_zero)
  have c1: "unat (cnt q - 1) = m" using c0 m by (simp add: unat_minus_one)
  have d: "unat (DEC_IDX (in' q) (rec_nb q) 0) = (?i + ?n - 1) mod ?n"
    using wi by (rule unat_DEC_IDX)
  have h: "hd (lifo_contents q) = slot q ((?i + ?n - 1) mod ?n)"
    using m by (simp add: lifo_contents_def hd_map upt_conv_Cons del: upt_Suc)
  have "tl (lifo_contents q)
          = map (\<lambda>k. slot q ((?i + ?n - Suc k) mod ?n)) (tl [0..<Suc m])"
    using m by (simp add: lifo_contents_def map_tl)
  also have "tl [0..<Suc m] = map Suc [0..<m]"
    by (simp add: map_Suc_upt del: upt_Suc)
  finally have t: "tl (lifo_contents q)
                     = map (\<lambda>k. slot q ((?i + ?n - Suc (Suc k)) mod ?n)) [0..<m]"
    by (simp add: comp_def)
  have "map (\<lambda>k. slot q (((?i + ?n - 1) mod ?n + ?n - Suc k) mod ?n)) [0..<m]
          = map (\<lambda>k. slot q ((?i + ?n - Suc (Suc k)) mod ?n)) [0..<m]"
  proof (rule map_cong [OF refl])
    fix k assume "k \<in> set [0..<m]"
    then have k: "Suc k < ?n" using m cn by simp
    show "slot q (((?i + ?n - 1) mod ?n + ?n - Suc k) mod ?n)
            = slot q ((?i + ?n - Suc (Suc k)) mod ?n)"
      unfolding lifo_below_pop [OF i k] ..
  qed
  moreover have "lifo_contents ?q'
                   = map (\<lambda>k. slot q (((?i + ?n - 1) mod ?n + ?n - Suc k) mod ?n)) [0..<m]"
    using c1 d by (simp add: lifo_contents_def)
  ultimately have t': "lifo_contents ?q' = tl (lifo_contents q)"
    using t by simp
  have e: "q_pop q buf = Some (True, ?q', hd (lifo_contents q))"
    using q_pop_lifo_eq [OF r l' ne f] l h d by simp
  show ?thesis
    using e ready_q_pop_lifo [OF r ne f] t' f by (intro exI [of _ ?q']) simp
qed

lemma length_hd_fifo_contents:
  assumes "ready q" and "\<not> q_isEmpty q"
  shows "length (hd (fifo_contents q)) = unat (rec_sz q)"
proof -
  obtain mem where m: "queue q = Alloc mem" "length mem = unat (rec_nb q) * unat (rec_sz q)"
    using ready_block [OF assms(1)] by blast
  have o: "unat (out q) < unat (rec_nb q)" using ready_cursors [OF assms(1)] by simp
  have "cnt q \<noteq> 0" using assms(2) by (simp add: q_isEmpty_def split: if_splits)
  then obtain k where k: "unat (cnt q) = Suc k" by (cases "unat (cnt q)") (simp_all add: unat_eq_zero)
  have "hd (fifo_contents q) = slot q (unat (out q))"
    using k o by (simp add: fifo_contents_def hd_map upt_conv_Cons del: upt_Suc)
  then show ?thesis using length_slot [OF m o] by simp
qed

lemma length_hd_lifo_contents:
  assumes "ready q" and "\<not> q_isEmpty q"
  shows "length (hd (lifo_contents q)) = unat (rec_sz q)"
proof -
  obtain mem where m: "queue q = Alloc mem" "length mem = unat (rec_nb q) * unat (rec_sz q)"
    using ready_block [OF assms(1)] by blast
  have i: "unat (in' q) < unat (rec_nb q)" using ready_cursors [OF assms(1)] by simp
  then have d: "(unat (in' q) + unat (rec_nb q) - 1) mod unat (rec_nb q) < unat (rec_nb q)"
    by simp
  have "cnt q \<noteq> 0" using assms(2) by (simp add: q_isEmpty_def split: if_splits)
  then obtain k where k: "unat (cnt q) = Suc k" by (cases "unat (cnt q)") (simp_all add: unat_eq_zero)
  have "hd (lifo_contents q) = slot q ((unat (in' q) + unat (rec_nb q) - 1) mod unat (rec_nb q))"
    using k by (simp add: lifo_contents_def hd_map upt_conv_Cons del: upt_Suc)
  then show ?thesis using length_slot [OF m d] by simp
qed

lemma ready_cnt_le: "ready q \<Longrightarrow> unat (cnt q) \<le> unat (rec_nb q)"
  by (simp add: ready_def word_le_nat_alt)

lemma q_isFull_iff: "q_isFull q \<longleftrightarrow> unat (cnt q) = unat (rec_nb q)"
  unfolding q_isFull_def using word_unat_eq_iff [of "cnt q" "rec_nb q"] by simp

lemma fifo_evict_drop:
  assumes "0 < n"
  shows "drop (length (((if length cs = n then tl cs else cs) @ [r]) @ rs) - n)
              (((if length cs = n then tl cs else cs) @ [r]) @ rs)
           = drop (length (cs @ r # rs) - n) (cs @ r # rs)"
proof (cases "length cs = n")
  case True
  with assms obtain a t where c: "cs = a # t" by (cases cs) auto
  with True have n: "n = Suc (length t)" by simp
  show ?thesis unfolding c n by simp
next
  case False
  then show ?thesis by simp
qed

lemma take_append_le: "n \<le> length xs \<Longrightarrow> take n (xs @ ys) = take n xs"
  by simp

lemma lifo_evict_take:
  assumes "0 < n"
  shows "take n (rev rs @ r # (if length cs = n then butlast cs else cs))
           = take n (rev (r # rs) @ cs)"
proof (cases "length cs = n")
  case True
  with assms have ne: "cs \<noteq> []" by auto
  have e: "rev (r # rs) @ cs = (rev rs @ r # butlast cs) @ [last cs]"
    using ne by simp
  have le: "n \<le> length (rev rs @ r # butlast cs)" using True ne by simp
  have "take n (rev (r # rs) @ cs) = take n (rev rs @ r # butlast cs)"
    unfolding e using le by (rule take_append_le)
  then show ?thesis unfolding if_P [OF True] by (rule sym)
next
  case False
  then show ?thesis by simp
qed

lemma push_all_fifo:
  assumes "ready q" and "impl q = FIFO"
    and "ovw q \<or> unat (cnt q) + length rs \<le> unat (rec_nb q)"
    and "\<forall>r \<in> set rs. length r = unat (rec_sz q)"
  shows "\<exists>q1. push_all q rs = Some (replicate (length rs) True, q1) \<and> ready q1
           \<and> impl q1 = FIFO \<and> rec_nb q1 = rec_nb q \<and> rec_sz q1 = rec_sz q
           \<and> fifo_contents q1 =
               drop (length (fifo_contents q @ rs) - unat (rec_nb q)) (fifo_contents q @ rs)"
  using assms
proof (induction rs arbitrary: q)
  case Nil
  then show ?case using ready_cnt_le [of q] by (simp add: length_fifo_contents)
next
  case (Cons r rs)
  let ?n = "unat (rec_nb q)" and ?cs = "fifo_contents q"
  have n0: "0 < ?n" using ready_cursors [OF Cons.prems(1)] by simp
  have g: "ovw q \<or> \<not> q_isFull q"
    using Cons.prems(3) by (auto simp: q_isFull_iff)
  have l: "length r = unat (rec_sz q)" using Cons.prems(4) by simp
  have fl: "q_isFull q \<longleftrightarrow> length ?cs = ?n"
    by (simp add: q_isFull_iff length_fifo_contents)
  obtain q' where p: "q_push q r = Some (True, q')" and r': "ready q'"
    and im: "impl q' = FIFO" and nb: "rec_nb q' = rec_nb q" and sz: "rec_sz q' = rec_sz q"
    and ov: "ovw q' = ovw q"
    and fc: "fifo_contents q' = (if length ?cs = ?n then tl ?cs else ?cs) @ [r]"
    using q_push_fifo [OF Cons.prems(1,2) l g] fl by auto
  have a: "ovw q' \<or> unat (cnt q') + length rs \<le> unat (rec_nb q')"
  proof (cases "ovw q")
    case True
    then show ?thesis using ov by simp
  next
    case False
    with Cons.prems(3) have b: "unat (cnt q) + Suc (length rs) \<le> ?n" by simp
    then have "length ?cs \<noteq> ?n" by (simp add: length_fifo_contents)
    then have "length (fifo_contents q') = Suc (length ?cs)" using fc by simp
    then have "unat (cnt q') = Suc (unat (cnt q))" by (simp add: length_fifo_contents)
    with b nb show ?thesis by simp
  qed
  have b: "\<forall>r \<in> set rs. length r = unat (rec_sz q')" using sz Cons.prems(4) by simp
  obtain q1 where p1: "push_all q' rs = Some (replicate (length rs) True, q1)"
    and r1: "ready q1" and i1: "impl q1 = FIFO"
    and n1: "rec_nb q1 = rec_nb q'" and s1: "rec_sz q1 = rec_sz q'"
    and c1: "fifo_contents q1 =
               drop (length (fifo_contents q' @ rs) - unat (rec_nb q')) (fifo_contents q' @ rs)"
    using Cons.IH [OF r' im a b] by blast
  have "fifo_contents q1 = drop (length (?cs @ r # rs) - ?n) (?cs @ r # rs)"
    unfolding c1 fc nb by (rule fifo_evict_drop [OF n0])
  then show ?case
    using p p1 r1 i1 n1 s1 nb sz by (intro exI [of _ q1]) simp
qed

lemma pop_n_fifo:
  assumes "ready q" and "impl q = FIFO" and "n \<le> unat (cnt q)"
    and "length buf = unat (rec_sz q)"
  shows "\<exists>q2. pop_n q n buf = Some (map (Pair True) (take n (fifo_contents q)), q2)
           \<and> ready q2"
  using assms
proof (induction n arbitrary: q buf)
  case 0
  then show ?case by simp
next
  case (Suc n)
  have ne: "\<not> q_isEmpty q"
  proof
    assume "q_isEmpty q"
    then have "unat (cnt q) = 0" by (simp add: q_isEmpty_def split: if_splits)
    with Suc.prems(3) show False by simp
  qed
  obtain q' where p: "q_pop q buf = Some (True, q', hd (fifo_contents q))" and r': "ready q'"
    and im: "impl q' = FIFO" and nb: "rec_nb q' = rec_nb q" and sz: "rec_sz q' = rec_sz q"
    and fc: "fifo_contents q' = tl (fifo_contents q)"
    using q_pop_fifo [OF Suc.prems(1,2,4) ne] by blast
  have "length (fifo_contents q') = length (fifo_contents q) - 1" using fc by simp
  then have c: "unat (cnt q') = unat (cnt q) - 1" by (simp add: length_fifo_contents)
  have a: "n \<le> unat (cnt q')" using c Suc.prems(3) by simp
  have b: "length (hd (fifo_contents q)) = unat (rec_sz q')"
    using length_hd_fifo_contents [OF Suc.prems(1) ne] sz by simp
  obtain q2 where s: "pop_n q' n (hd (fifo_contents q))
                       = Some (map (Pair True) (take n (fifo_contents q')), q2)"
    and r2: "ready q2"
    using Suc.IH [OF r' im a b] by blast
  have "fifo_contents q \<noteq> []"
    using Suc.prems(3) length_fifo_contents [of q] by auto
  then have "take (Suc n) (fifo_contents q) = hd (fifo_contents q) # take n (fifo_contents q')"
    using fc by (cases "fifo_contents q") simp_all
  then show ?case
    using p s r2 by (intro exI [of _ q2]) simp
qed

section \<open>Ready rings stay ready\<close>

text \<open>
  A \<open>q_init\<close> with positive capacity whose allocation succeeds yields a ready ring, and
  on a ready ring, with a record or buffer of at least \<open>rec_sz\<close> bytes, every operation is
  defined and yields a ready ring.
\<close>

text \<open>
  Where the \<^verbatim>\<open>int\<close> product overflows the call is undefined: \<open>q_init\<close> for a size above
  \<open>INT_MAX\<close>, and \<open>q_push\<close>, \<open>q_pop\<close>, \<open>q_peek\<close> for an offset above \<open>INT_MAX\<close>.
\<close>

lemma q_push_overflow:
  assumes "ovw q \<or> \<not> q_isFull q" and "INT_MAX < unat (rec_sz q) * unat (in' q)"
  shows "q_push q rcd = None"
  using assms by (auto simp: q_push_def int_mul_def)

lemma q_pop_q_peek_overflow:
  assumes "\<not> q_isEmpty q" and "impl q = FIFO"
    and "INT_MAX < unat (rec_sz q) * unat (out q)"
  shows "q_pop q rcd = None \<and> q_peek q rcd = None"
  using assms by (simp add: q_pop_def q_peek_def int_mul_def)

lemma q_init_overflow:
  assumes "INT_MAX < unat nb_recs * unat size_rec"
  shows "q_init malloc q size_rec nb_recs type overwrite = None"
  using assms by (simp add: q_init_def int_mul_def Let_def split: option.splits)

lemma ready_q_init:
  assumes "malloc_ok malloc" and "0 < nb_recs"
    and "malloc (unat nb_recs * unat size_rec) \<noteq> None"
    and "q_init malloc q0 size_rec nb_recs type overwrite = Some q"
  shows "ready q"
proof -
  let ?q1 = "q0\<lparr>rec_nb := nb_recs, rec_sz := size_rec, impl := type, ovw := overwrite\<rparr>"
  obtain n where n: "int_mul nb_recs size_rec = Some n"
    using assms(4) by (auto simp: q_init_def Let_def split: option.splits if_splits)
  then have b: "unat nb_recs * unat size_rec \<le> INT_MAX"
    and ne: "n = unat nb_recs * unat size_rec"
    by (auto simp: int_mul_def split: if_splits)
  obtain mem where m: "malloc n = Some mem" using assms(3) ne by blast
  then have l: "length mem = n" using assms(1) by (simp add: malloc_ok_def)
  obtain q2 where k: "(if init ?q1 = 0x5AA5 then q_kill ?q1 else Some ?q1) = Some q2"
    and e: "q = q_clean (q2\<lparr>queue := Alloc mem, init := 0x5AA5\<rparr>)"
    using assms(4) n m by (auto simp: q_init_def Let_def split: option.splits if_splits)
  have f: "rec_nb q2 = nb_recs" "rec_sz q2 = size_rec"
    using k by (auto simp: q_kill_def split: if_splits pointer.splits)
  show ?thesis
    unfolding e using f l ne b assms(2)
    by (simp add: ready_def q_isInitialized_def QUEUE_INITIALIZED_def q_clean_def)
qed

lemma ready_q_clean: "ready q \<Longrightarrow> ready (q_clean q)"
proof -
  assume r: "ready q"
  obtain mem where m: "queue q = Alloc mem" "length mem = unat (rec_nb q) * unat (rec_sz q)"
    using ready_block [OF r] by blast
  have wr: "init q = QUEUE_INITIALIZED"
    using r by (simp add: ready_def q_isInitialized_def split: if_splits)
  have wb: "unat (rec_nb q) * unat (rec_sz q) \<le> INT_MAX" using r by (simp add: ready_def)
  have "in' q < rec_nb q" using r by (simp add: ready_def)
  then have "0 < rec_nb q" by (simp add: word_less_nat_alt)
  then show ?thesis
    unfolding ready_def q_isInitialized_def q_clean_def using wr wb m by simp
qed

lemma ready_q_push:
  assumes "ready q" and "unat (rec_sz q) \<le> length rcd"
  shows "\<exists>ok q'. q_push q rcd = Some (ok, q') \<and> ready q'"
proof (cases "ovw q \<or> \<not> q_isFull q")
  case True
  then show ?thesis using q_push_ready [OF assms True] by blast
next
  case False
  then have "q_push q rcd = Some (False, q)" by (simp add: q_push_def)
  then show ?thesis using assms(1) by blast
qed

lemma ready_q_pop:
  assumes "ready q" and "unat (rec_sz q) \<le> length buf"
  shows "\<exists>ok q' buf'. q_pop q buf = Some (ok, q', buf') \<and> ready q'"
proof (cases "q_isEmpty q \<or> (impl q \<noteq> FIFO \<and> impl q \<noteq> LIFO)")
  case True
  then have "q_pop q buf = Some (False, q, buf)" by (auto simp: q_pop_def)
  then show ?thesis using assms(1) by blast
next
  case False
  then have ne: "\<not> q_isEmpty q" and m: "impl q = FIFO \<or> impl q = LIFO" by auto
  from m show ?thesis
  proof
    assume f: "impl q = FIFO"
    show ?thesis
      using q_pop_fifo_eq [OF assms ne f] ready_q_pop_fifo [OF assms(1) ne f] by blast
  next
    assume f: "impl q = LIFO"
    show ?thesis
      using q_pop_lifo_eq [OF assms ne f] ready_q_pop_lifo [OF assms(1) ne f] by blast
  qed
qed

lemma ready_q_peek:
  assumes "ready q" and "unat (rec_sz q) \<le> length buf"
  shows "\<exists>ok buf'. q_peek q buf = Some (ok, q, buf')"
  unfolding q_peek_ready [OF assms] by auto

lemma ready_q_drop:
  assumes "ready q"
  shows "ready (snd (q_drop q))"
proof (cases "q_isEmpty q \<or> (impl q \<noteq> FIFO \<and> impl q \<noteq> LIFO)")
  case True
  then have "q_drop q = (False, q)" by (auto simp: q_drop_def)
  then show ?thesis using assms by simp
next
  case False
  then have ne: "\<not> q_isEmpty q" and m: "impl q = FIFO \<or> impl q = LIFO" by auto
  from m show ?thesis
  proof
    assume f: "impl q = FIFO"
    then have "snd (q_drop q) = q\<lparr>out := INC_IDX (out q) (rec_nb q) 0, cnt := cnt q - 1\<rparr>"
      using ne by (simp add: q_drop_def Let_def)
    then show ?thesis using ready_q_pop_fifo [OF assms ne f] by simp
  next
    assume f: "impl q = LIFO"
    then have "snd (q_drop q) = q\<lparr>in' := DEC_IDX (in' q) (rec_nb q) 0, cnt := cnt q - 1\<rparr>"
      using ne FIFO_neq_LIFO by (simp add: q_drop_def Let_def)
    then show ?thesis using ready_q_pop_lifo [OF assms ne f] by simp
  qed
qed

text \<open>
  No operation changes the capacity or the record size, so every state reached from a
  \<open>q_init\<close> has a size that \<^verbatim>\<open>int\<close> can hold.
\<close>

lemma q_init_dims:
  assumes "q_init malloc q0 size_rec nb_recs type overwrite = Some q"
  shows "rec_nb q = nb_recs \<and> rec_sz q = size_rec
         \<and> unat nb_recs * unat size_rec \<le> INT_MAX"
  using assms
  by (auto simp: q_init_def q_clean_def q_kill_def int_mul_def Let_def
      split: if_splits option.splits pointer.splits)

lemma dims_unchanged:
  "q_push q rcd = Some (ok, q') \<Longrightarrow> rec_nb q' = rec_nb q \<and> rec_sz q' = rec_sz q"
  "q_pop q rcd = Some (ok, q', rcd') \<Longrightarrow> rec_nb q' = rec_nb q \<and> rec_sz q' = rec_sz q"
  "q_peek q rcd = Some (ok, q', rcd') \<Longrightarrow> rec_nb q' = rec_nb q \<and> rec_sz q' = rec_sz q"
  "q_drop q = (ok, q') \<Longrightarrow> rec_nb q' = rec_nb q \<and> rec_sz q' = rec_sz q"
  "q_kill q = Some q' \<Longrightarrow> rec_nb q' = rec_nb q \<and> rec_sz q' = rec_sz q"
  "rec_nb (q_flush q) = rec_nb q \<and> rec_sz (q_flush q) = rec_sz q"
proof -
  show "q_push q rcd = Some (ok, q') \<Longrightarrow> rec_nb q' = rec_nb q \<and> rec_sz q' = rec_sz q"
    by (auto simp: q_push_def Let_def split: if_splits pointer.splits option.splits)
  show "q_pop q rcd = Some (ok, q', rcd') \<Longrightarrow> rec_nb q' = rec_nb q \<and> rec_sz q' = rec_sz q"
    by (auto simp: q_pop_def Let_def split: if_splits option.splits)
  show "q_peek q rcd = Some (ok, q', rcd') \<Longrightarrow> rec_nb q' = rec_nb q \<and> rec_sz q' = rec_sz q"
    by (auto simp: q_peek_def Let_def split: if_splits option.splits)
  show "q_drop q = (ok, q') \<Longrightarrow> rec_nb q' = rec_nb q \<and> rec_sz q' = rec_sz q"
    by (auto simp: q_drop_def Let_def split: if_splits)
  show "q_kill q = Some q' \<Longrightarrow> rec_nb q' = rec_nb q \<and> rec_sz q' = rec_sz q"
    by (auto simp: q_kill_def split: pointer.splits)
  show "rec_nb (q_flush q) = rec_nb q \<and> rec_sz (q_flush q) = rec_sz q"
    by (simp add: q_clean_def)
qed

lemma reachable_size_bound:
  "reachable q \<Longrightarrow> unat (rec_nb q) * unat (rec_sz q) \<le> INT_MAX"
proof (induction rule: reachable.induct)
  case (r_init nb_recs malloc q0 size_rec type overwrite q)
  then show ?case using q_init_dims by blast
next
  case (r_push q rcd ok q')
  then show ?case using dims_unchanged(1) by metis
next
  case (r_pop q rcd ok q' rcd')
  then show ?case using dims_unchanged(2) by metis
next
  case (r_peek q rcd ok q' rcd')
  then show ?case using dims_unchanged(3) by metis
next
  case (r_drop q ok q')
  then show ?case using dims_unchanged(4) by metis
next
  case (r_flush q)
  then show ?case using dims_unchanged(6) by simp
next
  case (r_kill q q')
  then show ?case using dims_unchanged(5) by metis
qed

section \<open>Round trip\<close>

lemma push_all_lifo:
  assumes "ready q" and "impl q = LIFO"
    and "ovw q \<or> unat (cnt q) + length rs \<le> unat (rec_nb q)"
    and "\<forall>r \<in> set rs. length r = unat (rec_sz q)"
  shows "\<exists>q1. push_all q rs = Some (replicate (length rs) True, q1) \<and> ready q1
           \<and> impl q1 = LIFO \<and> rec_nb q1 = rec_nb q \<and> rec_sz q1 = rec_sz q
           \<and> lifo_contents q1 = take (unat (rec_nb q)) (rev rs @ lifo_contents q)"
  using assms
proof (induction rs arbitrary: q)
  case Nil
  then show ?case using ready_cnt_le [of q] by (simp add: length_lifo_contents)
next
  case (Cons r rs)
  let ?n = "unat (rec_nb q)" and ?cs = "lifo_contents q"
  have n0: "0 < ?n" using ready_cursors [OF Cons.prems(1)] by simp
  have g: "ovw q \<or> \<not> q_isFull q"
    using Cons.prems(3) by (auto simp: q_isFull_iff)
  have l: "length r = unat (rec_sz q)" using Cons.prems(4) by simp
  have fl: "q_isFull q \<longleftrightarrow> length ?cs = ?n"
    by (simp add: q_isFull_iff length_lifo_contents)
  obtain q' where p: "q_push q r = Some (True, q')" and r': "ready q'"
    and im: "impl q' = LIFO" and nb: "rec_nb q' = rec_nb q" and sz: "rec_sz q' = rec_sz q"
    and ov: "ovw q' = ovw q"
    and fc: "lifo_contents q' = r # (if length ?cs = ?n then butlast ?cs else ?cs)"
    using q_push_lifo [OF Cons.prems(1,2) l g] fl by auto
  have a: "ovw q' \<or> unat (cnt q') + length rs \<le> unat (rec_nb q')"
  proof (cases "ovw q")
    case True
    then show ?thesis using ov by simp
  next
    case False
    with Cons.prems(3) have b: "unat (cnt q) + Suc (length rs) \<le> ?n" by simp
    then have "length ?cs \<noteq> ?n" by (simp add: length_lifo_contents)
    then have "length (lifo_contents q') = Suc (length ?cs)" using fc by simp
    then have "unat (cnt q') = Suc (unat (cnt q))" by (simp add: length_lifo_contents)
    with b nb show ?thesis by simp
  qed
  have b: "\<forall>r \<in> set rs. length r = unat (rec_sz q')" using sz Cons.prems(4) by simp
  obtain q1 where p1: "push_all q' rs = Some (replicate (length rs) True, q1)"
    and r1: "ready q1" and i1: "impl q1 = LIFO"
    and n1: "rec_nb q1 = rec_nb q'" and s1: "rec_sz q1 = rec_sz q'"
    and c1: "lifo_contents q1 = take (unat (rec_nb q')) (rev rs @ lifo_contents q')"
    using Cons.IH [OF r' im a b] by blast
  have "lifo_contents q1 = take ?n (rev (r # rs) @ ?cs)"
    unfolding c1 fc nb by (rule lifo_evict_take [OF n0])
  then show ?case
    using p p1 r1 i1 n1 s1 nb sz by (intro exI [of _ q1]) simp
qed

lemma pop_n_lifo:
  assumes "ready q" and "impl q = LIFO" and "n \<le> unat (cnt q)"
    and "length buf = unat (rec_sz q)"
  shows "\<exists>q2. pop_n q n buf = Some (map (Pair True) (take n (lifo_contents q)), q2)
           \<and> ready q2"
  using assms
proof (induction n arbitrary: q buf)
  case 0
  then show ?case by simp
next
  case (Suc n)
  have ne: "\<not> q_isEmpty q"
  proof
    assume "q_isEmpty q"
    then have "unat (cnt q) = 0" by (simp add: q_isEmpty_def split: if_splits)
    with Suc.prems(3) show False by simp
  qed
  obtain q' where p: "q_pop q buf = Some (True, q', hd (lifo_contents q))" and r': "ready q'"
    and im: "impl q' = LIFO" and nb: "rec_nb q' = rec_nb q" and sz: "rec_sz q' = rec_sz q"
    and fc: "lifo_contents q' = tl (lifo_contents q)"
    using q_pop_lifo [OF Suc.prems(1,2,4) ne] by blast
  have "length (lifo_contents q') = length (lifo_contents q) - 1" using fc by simp
  then have c: "unat (cnt q') = unat (cnt q) - 1" by (simp add: length_lifo_contents)
  have a: "n \<le> unat (cnt q')" using c Suc.prems(3) by simp
  have b: "length (hd (lifo_contents q)) = unat (rec_sz q')"
    using length_hd_lifo_contents [OF Suc.prems(1) ne] sz by simp
  obtain q2 where s: "pop_n q' n (hd (lifo_contents q))
                       = Some (map (Pair True) (take n (lifo_contents q')), q2)"
    and r2: "ready q2"
    using Suc.IH [OF r' im a b] by blast
  have "lifo_contents q \<noteq> []"
    using Suc.prems(3) length_lifo_contents [of q] by auto
  then have "take (Suc n) (lifo_contents q) = hd (lifo_contents q) # take n (lifo_contents q')"
    using fc by (cases "lifo_contents q") simp_all
  then show ?case
    using p s r2 by (intro exI [of _ q2]) simp
qed

text \<open>
  Any sequence of pushes on a ready ring is defined and leaves \<open>min (cnt + N) rec_nb\<close>
  records; when records have no bytes, the pops hand back what was pushed whether or
  not a push was refused.
\<close>

lemma q_push_ready_any:
  assumes r: "ready q" and l: "unat (rec_sz q) \<le> length rcd"
  shows "\<exists>ok q'. q_push q rcd = Some (ok, q') \<and> ready q'
           \<and> rec_nb q' = rec_nb q \<and> rec_sz q' = rec_sz q \<and> impl q' = impl q
           \<and> unat (cnt q') = min (Suc (unat (cnt q))) (unat (rec_nb q))"
proof (cases "ovw q \<or> \<not> q_isFull q")
  case True
  obtain q' where p: "q_push q rcd = Some (True, q')" and r': "ready q'"
    and nb: "rec_nb q' = rec_nb q" and sz: "rec_sz q' = rec_sz q"
    and im: "impl q' = impl q"
    and c': "cnt q' = (if q_isFull q then cnt q else cnt q + 1)"
    using q_push_ready [OF r l True] by blast
  have wc: "cnt q \<le> rec_nb q" using r by (simp add: ready_def)
  have "unat (cnt q') = min (Suc (unat (cnt q))) (unat (rec_nb q))"
  proof (cases "q_isFull q")
    case True
    then show ?thesis using c' by (simp add: q_isFull_iff)
  next
    case False
    then have ne: "cnt q \<noteq> rec_nb q" by (simp add: q_isFull_def split: if_splits)
    then have "unat (cnt q + 1) = unat (cnt q) + 1" using wc unat_cnt_Suc by blast
    moreover have "unat (cnt q) < unat (rec_nb q)"
      using ready_cnt_le [OF r] False by (simp add: q_isFull_iff)
    ultimately show ?thesis using c' False by simp
  qed
  then show ?thesis using p r' nb sz im by blast
next
  case False
  then have p: "q_push q rcd = Some (False, q)" by (simp add: q_push_def)
  have "unat (cnt q) = min (Suc (unat (cnt q))) (unat (rec_nb q))"
    using False by (simp add: q_isFull_iff)
  then show ?thesis using p r by blast
qed

lemma push_all_ready:
  assumes "ready q" and "\<forall>r \<in> set rs. unat (rec_sz q) \<le> length r"
  shows "\<exists>oks q1. push_all q rs = Some (oks, q1) \<and> ready q1
           \<and> rec_nb q1 = rec_nb q \<and> rec_sz q1 = rec_sz q \<and> impl q1 = impl q
           \<and> unat (cnt q1) = min (unat (cnt q) + length rs) (unat (rec_nb q))"
  using assms
proof (induction rs arbitrary: q)
  case Nil
  then show ?case using ready_cnt_le [of q] by simp
next
  case (Cons r rs)
  have l: "unat (rec_sz q) \<le> length r" using Cons.prems(2) by simp
  obtain ok q' where p: "q_push q r = Some (ok, q')" and r': "ready q'"
    and nb: "rec_nb q' = rec_nb q" and sz: "rec_sz q' = rec_sz q" and im: "impl q' = impl q"
    and c': "unat (cnt q') = min (Suc (unat (cnt q))) (unat (rec_nb q))"
    using q_push_ready_any [OF Cons.prems(1) l] by blast
  have b: "\<forall>r \<in> set rs. unat (rec_sz q') \<le> length r" using sz Cons.prems(2) by simp
  obtain oks q1 where p1: "push_all q' rs = Some (oks, q1)" and r1: "ready q1"
    and n1: "rec_nb q1 = rec_nb q'" and s1: "rec_sz q1 = rec_sz q'" and i1: "impl q1 = impl q'"
    and c1: "unat (cnt q1) = min (unat (cnt q') + length rs) (unat (rec_nb q'))"
    using Cons.IH [OF r' b] by blast
  have "unat (cnt q1) = min (unat (cnt q) + length (r # rs)) (unat (rec_nb q))"
    using c1 c' nb by (simp add: min_def)
  then show ?case
    using p p1 r1 n1 s1 i1 nb sz im by (intro exI [of _ "ok # oks"] exI [of _ q1]) simp
qed

lemma length_fifo_contents_elem:
  assumes "ready q" and "x \<in> set (fifo_contents q)"
  shows "length x = unat (rec_sz q)"
proof -
  obtain mem where m: "queue q = Alloc mem" "length mem = unat (rec_nb q) * unat (rec_sz q)"
    using ready_block [OF assms(1)] by blast
  have n0: "0 < unat (rec_nb q)" using ready_cursors [OF assms(1)] by simp
  obtain k where "x = slot q ((unat (out q) + k) mod unat (rec_nb q))"
    using assms(2) by (auto simp: fifo_contents_def)
  moreover have "(unat (out q) + k) mod unat (rec_nb q) < unat (rec_nb q)" using n0 by simp
  ultimately show ?thesis using length_slot [OF m] by simp
qed

lemma length_lifo_contents_elem:
  assumes "ready q" and "x \<in> set (lifo_contents q)"
  shows "length x = unat (rec_sz q)"
proof -
  obtain mem where m: "queue q = Alloc mem" "length mem = unat (rec_nb q) * unat (rec_sz q)"
    using ready_block [OF assms(1)] by blast
  have n0: "0 < unat (rec_nb q)" using ready_cursors [OF assms(1)] by simp
  obtain k where "x = slot q ((unat (in' q) + unat (rec_nb q) - Suc k) mod unat (rec_nb q))"
    using assms(2) by (auto simp: lifo_contents_def)
  moreover have "(unat (in' q) + unat (rec_nb q) - Suc k) mod unat (rec_nb q) < unat (rec_nb q)"
    using n0 by simp
  ultimately show ?thesis using length_slot [OF m] by simp
qed

lemma all_empty_eq:
  assumes "\<forall>x \<in> set xs. x = []" and "\<forall>y \<in> set ys. y = []" and "length xs = length ys"
  shows "xs = ys"
  using assms by (induction xs ys rule: list_induct2') auto

lemma roundtrip_zero_size:
  assumes r: "ready q" and n: "length rs \<le> unat (rec_nb q)"
    and l: "\<forall>r \<in> set rs. length r = unat (rec_sz q)"
    and b: "length buf = unat (rec_sz q)"
    and z: "rec_sz q = 0"
  shows "(impl q = FIFO \<longrightarrow>
           (\<exists>oks q1 q2. push_all q rs = Some (oks, q1)
              \<and> pop_n q1 (length rs) buf = Some (map (Pair True) rs, q2)))
         \<and> (impl q = LIFO \<longrightarrow>
           (\<exists>oks q1 q2. push_all q rs = Some (oks, q1)
              \<and> pop_n q1 (length rs) buf = Some (map (Pair True) (rev rs), q2)))"
proof -
  have l': "\<forall>r \<in> set rs. unat (rec_sz q) \<le> length r" using l by simp
  obtain oks q1 where p: "push_all q rs = Some (oks, q1)" and r1: "ready q1"
    and n1: "rec_nb q1 = rec_nb q" and s1: "rec_sz q1 = rec_sz q" and i1: "impl q1 = impl q"
    and c1: "unat (cnt q1) = min (unat (cnt q) + length rs) (unat (rec_nb q))"
    using push_all_ready [OF r l'] by blast
  have k: "length rs \<le> unat (cnt q1)" using c1 n by simp
  have b1: "length buf = unat (rec_sz q1)" using b s1 by simp
  have e: "\<forall>y \<in> set rs. y = []" using l z by simp
  then have e': "\<forall>y \<in> set (rev rs). y = []" by simp
  show ?thesis
  proof (intro conjI impI)
    assume "impl q = FIFO"
    then have f: "impl q1 = FIFO" using i1 by simp
    obtain q2 where s: "pop_n q1 (length rs) buf
                          = Some (map (Pair True) (take (length rs) (fifo_contents q1)), q2)"
      using pop_n_fifo [OF r1 f k b1] by blast
    have "\<forall>x \<in> set (take (length rs) (fifo_contents q1)). x = []"
    proof
      fix x assume "x \<in> set (take (length rs) (fifo_contents q1))"
      then have "x \<in> set (fifo_contents q1)" by (rule in_set_takeD)
      then have "length x = unat (rec_sz q1)" by (rule length_fifo_contents_elem [OF r1])
      then show "x = []" using s1 z by simp
    qed
    moreover have "length (take (length rs) (fifo_contents q1)) = length rs"
      using k by (simp add: length_fifo_contents)
    ultimately have "take (length rs) (fifo_contents q1) = rs"
      using e by (intro all_empty_eq) simp_all
    then have "pop_n q1 (length rs) buf = Some (map (Pair True) rs, q2)"
      using s by (simp only:)
    with p show "\<exists>oks q1 q2. push_all q rs = Some (oks, q1)
              \<and> pop_n q1 (length rs) buf = Some (map (Pair True) rs, q2)"
      by blast
  next
    assume "impl q = LIFO"
    then have f: "impl q1 = LIFO" using i1 by simp
    obtain q2 where s: "pop_n q1 (length rs) buf
                          = Some (map (Pair True) (take (length rs) (lifo_contents q1)), q2)"
      using pop_n_lifo [OF r1 f k b1] by blast
    have "\<forall>x \<in> set (take (length rs) (lifo_contents q1)). x = []"
    proof
      fix x assume "x \<in> set (take (length rs) (lifo_contents q1))"
      then have "x \<in> set (lifo_contents q1)" by (rule in_set_takeD)
      then have "length x = unat (rec_sz q1)" by (rule length_lifo_contents_elem [OF r1])
      then show "x = []" using s1 z by simp
    qed
    moreover have "length (take (length rs) (lifo_contents q1)) = length (rev rs)"
      using k by (simp add: length_lifo_contents)
    ultimately have "take (length rs) (lifo_contents q1) = rev rs"
      using e' by (intro all_empty_eq) simp_all
    then have "pop_n q1 (length rs) buf = Some (map (Pair True) (rev rs), q2)"
      using s by (simp only:)
    with p show "\<exists>oks q1 q2. push_all q rs = Some (oks, q1)
              \<and> pop_n q1 (length rs) buf = Some (map (Pair True) (rev rs), q2)"
      by blast
  qed
qed

text \<open>
  C1, as stated for every ready ring, fails. A FIFO ring of two slots that holds the
  record 5: pushing the record 9 and popping once returns 5, the record held before,
  without overwrite and with it. A full LIFO ring without overwrite: the push is refused
  and the pop returns the record 6 held before.
\<close>

theorem push_pop_counterexample:
  "ready (ring_example FIFO False [5, 0] 1 0 1)
   \<and> impl (ring_example FIFO False [5, 0] 1 0 1) = FIFO
   \<and> length [[9 :: uint8_t]] \<le> unat (rec_nb (ring_example FIFO False [5, 0] 1 0 1))
   \<and> push_all (ring_example FIFO False [5, 0] 1 0 1) [[9]]
        = Some ([True], ring_example FIFO False [5, 9] 0 0 2)
   \<and> pop_n (ring_example FIFO False [5, 9] 0 0 2) 1 [0]
        = Some ([(True, [5])], ring_example FIFO False [5, 9] 0 1 1)
   \<and> [5 :: uint8_t] \<noteq> [9]
   \<and> ready (ring_example FIFO True [5, 0] 1 0 1)
   \<and> impl (ring_example FIFO True [5, 0] 1 0 1) = FIFO
   \<and> length [[9 :: uint8_t]] \<le> unat (rec_nb (ring_example FIFO True [5, 0] 1 0 1))
   \<and> push_all (ring_example FIFO True [5, 0] 1 0 1) [[9]]
        = Some ([True], ring_example FIFO True [5, 9] 0 0 2)
   \<and> pop_n (ring_example FIFO True [5, 9] 0 0 2) 1 [0]
        = Some ([(True, [5])], ring_example FIFO True [5, 9] 0 1 1)
   \<and> ready (ring_example LIFO False [5, 6] 0 0 2)
   \<and> impl (ring_example LIFO False [5, 6] 0 0 2) = LIFO
   \<and> length [[9 :: uint8_t]] \<le> unat (rec_nb (ring_example LIFO False [5, 6] 0 0 2))
   \<and> push_all (ring_example LIFO False [5, 6] 0 0 2) [[9]]
        = Some ([False], ring_example LIFO False [5, 6] 0 0 2)
   \<and> pop_n (ring_example LIFO False [5, 6] 0 0 2) 1 [0]
        = Some ([(True, [6])], ring_example LIFO False [5, 6] 1 0 1)
   \<and> [6 :: uint8_t] \<noteq> [9]"
  by (simp add: ready_def ring_example_def int_mul_def INT_MAX_def q_isInitialized_def
      QUEUE_INITIALIZED_def q_push_def q_pop_def q_isFull_def q_isEmpty_def memcpy_def
      copy_out_def INC_IDX_def DEC_IDX_def FIFO_def LIFO_def Let_def)

text \<open>
  C1, amended. For every ready ring and \<open>N \<le> rec_nb\<close> records of \<open>rec_sz\<close> bytes, all
  \<open>N\<close> pushes return true, and the \<open>N\<close> pops that follow all return true and hand back
  exactly the records pushed:
  \<^item> in the order pushed, when the mode is FIFO and the ring was empty, or overwrite is
    enabled and \<open>N = rec_nb\<close> (the pushes evict every record held before), or \<open>N = 0\<close>;
  \<^item> in the reverse order, when the mode is LIFO and overwrite is enabled or the ring
    has at least \<open>N\<close> free slots (\<open>cnt + N \<le> rec_nb\<close>).
  When records have no bytes (\<open>rec_sz = 0\<close>) the \<open>N\<close> pops return true and hand back
  the records pushed on every ready ring, in both modes, though a push on a full ring
  without overwrite returns false. The counterexample above shows the three cases left
  out, where records have bytes.
\<close>

theorem push_pop_roundtrip:
  assumes "ready q"
    and "length rs \<le> unat (rec_nb q)"
    and "\<forall>r \<in> set rs. length r = unat (rec_sz q)"
    and "length buf = unat (rec_sz q)"
  shows "(impl q = FIFO
            \<and> (q_isEmpty q \<or> rs = [] \<or> (ovw q \<and> length rs = unat (rec_nb q))) \<longrightarrow>
           (\<exists>q1 q2. push_all q rs = Some (replicate (length rs) True, q1)
              \<and> pop_n q1 (length rs) buf = Some (map (Pair True) rs, q2)))
         \<and> (impl q = LIFO
            \<and> (ovw q \<or> unat (cnt q) + length rs \<le> unat (rec_nb q)) \<longrightarrow>
           (\<exists>q1 q2. push_all q rs = Some (replicate (length rs) True, q1)
              \<and> pop_n q1 (length rs) buf = Some (map (Pair True) (rev rs), q2)))
         \<and> (rec_sz q = 0 \<and> impl q = FIFO \<longrightarrow>
           (\<exists>oks q1 q2. push_all q rs = Some (oks, q1)
              \<and> pop_n q1 (length rs) buf = Some (map (Pair True) rs, q2)))
         \<and> (rec_sz q = 0 \<and> impl q = LIFO \<longrightarrow>
           (\<exists>oks q1 q2. push_all q rs = Some (oks, q1)
              \<and> pop_n q1 (length rs) buf = Some (map (Pair True) (rev rs), q2)))"
proof (intro conjI impI)
  let ?n = "unat (rec_nb q)" and ?cs = "fifo_contents q"
  assume h: "impl q = FIFO
               \<and> (q_isEmpty q \<or> rs = [] \<or> (ovw q \<and> length rs = unat (rec_nb q)))"
  then have f: "impl q = FIFO" by simp
  have cl: "length ?cs \<le> ?n"
    using ready_cnt_le [OF assms(1)] by (simp add: length_fifo_contents)
  have g: "ovw q \<or> unat (cnt q) + length rs \<le> ?n"
    using h assms(2) ready_cnt_le [OF assms(1)]
    by (auto simp: q_isEmpty_def split: if_splits)
  have t: "take (length rs) (drop (length (?cs @ rs) - ?n) (?cs @ rs)) = rs"
  proof -
    from h consider "q_isEmpty q" | "rs = []" | "ovw q \<and> length rs = ?n" by blast
    then show ?thesis
    proof cases
      case 1
      then have "?cs = []" by (simp add: q_isEmpty_def fifo_contents_def split: if_splits)
      then show ?thesis using assms(2) by simp
    next
      case 2
      then show ?thesis by simp
    next
      case 3
      then show ?thesis by simp
    qed
  qed
  obtain q1 where p: "push_all q rs = Some (replicate (length rs) True, q1)"
    and r1: "ready q1" and i1: "impl q1 = FIFO" and s1: "rec_sz q1 = rec_sz q"
    and c1: "fifo_contents q1 = drop (length (?cs @ rs) - ?n) (?cs @ rs)"
    using push_all_fifo [OF assms(1) f g assms(3)] by blast
  have tk: "take (length rs) (fifo_contents q1) = rs"
    unfolding c1 by (rule t)
  have "length (take (length rs) (fifo_contents q1)) = length rs"
    by (simp only: tk)
  then have n: "length rs \<le> unat (cnt q1)"
    by (simp add: length_fifo_contents)
  have b: "length buf = unat (rec_sz q1)" using assms(4) s1 by simp
  obtain q2 where "pop_n q1 (length rs) buf
                     = Some (map (Pair True) (take (length rs) (fifo_contents q1)), q2)"
    using pop_n_fifo [OF r1 i1 n b] by blast
  then have "pop_n q1 (length rs) buf = Some (map (Pair True) rs, q2)"
    by (simp only: tk)
  with p show "\<exists>q1 q2. push_all q rs = Some (replicate (length rs) True, q1)
              \<and> pop_n q1 (length rs) buf = Some (map (Pair True) rs, q2)"
    by blast
next
  let ?n = "unat (rec_nb q)" and ?cs = "lifo_contents q"
  assume h: "impl q = LIFO \<and> (ovw q \<or> unat (cnt q) + length rs \<le> unat (rec_nb q))"
  then have f: "impl q = LIFO" and g: "ovw q \<or> unat (cnt q) + length rs \<le> ?n"
    by simp_all
  have t: "take (length rs) (take ?n (rev rs @ ?cs)) = rev rs"
    using assms(2) by (simp add: min_def)
  obtain q1 where p: "push_all q rs = Some (replicate (length rs) True, q1)"
    and r1: "ready q1" and i1: "impl q1 = LIFO" and s1: "rec_sz q1 = rec_sz q"
    and c1: "lifo_contents q1 = take ?n (rev rs @ ?cs)"
    using push_all_lifo [OF assms(1) f g assms(3)] by blast
  have tk: "take (length rs) (lifo_contents q1) = rev rs"
    unfolding c1 by (rule t)
  have "length (take (length rs) (lifo_contents q1)) = length rs"
    by (simp only: tk length_rev)
  then have n: "length rs \<le> unat (cnt q1)"
    by (simp add: length_lifo_contents)
  have b: "length buf = unat (rec_sz q1)" using assms(4) s1 by simp
  obtain q2 where "pop_n q1 (length rs) buf
                     = Some (map (Pair True) (take (length rs) (lifo_contents q1)), q2)"
    using pop_n_lifo [OF r1 i1 n b] by blast
  then have "pop_n q1 (length rs) buf = Some (map (Pair True) (rev rs), q2)"
    by (simp only: tk)
  with p show "\<exists>q1 q2. push_all q rs = Some (replicate (length rs) True, q1)
              \<and> pop_n q1 (length rs) buf = Some (map (Pair True) (rev rs), q2)"
    by blast
next
  assume "rec_sz q = 0 \<and> impl q = FIFO"
  then show "\<exists>oks q1 q2. push_all q rs = Some (oks, q1)
              \<and> pop_n q1 (length rs) buf = Some (map (Pair True) rs, q2)"
    using roundtrip_zero_size [OF assms] by blast
next
  assume "rec_sz q = 0 \<and> impl q = LIFO"
  then show "\<exists>oks q1 q2. push_all q rs = Some (oks, q1)
              \<and> pop_n q1 (length rs) buf = Some (map (Pair True) (rev rs), q2)"
    using roundtrip_zero_size [OF assms] by blast
qed

text \<open>
  The theorem at six rings of two slots: an empty FIFO ring and a full FIFO ring with
  overwrite, each with two records; a LIFO ring without overwrite that holds one record,
  with one more record; a full LIFO ring with overwrite, with two records; and a FIFO
  and a LIFO ring of records without bytes, neither empty nor overwriting, with two
  records.
\<close>

theorem push_pop_roundtrip_witness:
  "ready (ring_example FIFO False [0, 0] 0 0 0)
   \<and> impl (ring_example FIFO False [0, 0] 0 0 0) = FIFO
   \<and> q_isEmpty (ring_example FIFO False [0, 0] 0 0 0)
   \<and> (\<exists>q1 q2. push_all (ring_example FIFO False [0, 0] 0 0 0) [[1], [2]]
                   = Some (replicate (length [[1 :: uint8_t], [2]]) True, q1)
              \<and> pop_n q1 (length [[1 :: uint8_t], [2]]) [0]
                   = Some (map (Pair True) [[1], [2]], q2))
   \<and> ready (ring_example FIFO True [5, 6] 0 0 2)
   \<and> impl (ring_example FIFO True [5, 6] 0 0 2) = FIFO
   \<and> ovw (ring_example FIFO True [5, 6] 0 0 2)
   \<and> length [[1 :: uint8_t], [2]] = unat (rec_nb (ring_example FIFO True [5, 6] 0 0 2))
   \<and> (\<exists>q1 q2. push_all (ring_example FIFO True [5, 6] 0 0 2) [[1], [2]]
                   = Some (replicate (length [[1 :: uint8_t], [2]]) True, q1)
              \<and> pop_n q1 (length [[1 :: uint8_t], [2]]) [0]
                   = Some (map (Pair True) [[1], [2]], q2))
   \<and> ready (ring_example LIFO False [5, 0] 1 0 1)
   \<and> impl (ring_example LIFO False [5, 0] 1 0 1) = LIFO
   \<and> (\<exists>q1 q2. push_all (ring_example LIFO False [5, 0] 1 0 1) [[7]]
                   = Some (replicate (length [[7 :: uint8_t]]) True, q1)
              \<and> pop_n q1 (length [[7 :: uint8_t]]) [0]
                   = Some (map (Pair True) (rev [[7]]), q2))
   \<and> ready (ring_example LIFO True [5, 6] 0 0 2)
   \<and> impl (ring_example LIFO True [5, 6] 0 0 2) = LIFO
   \<and> ovw (ring_example LIFO True [5, 6] 0 0 2)
   \<and> (\<exists>q1 q2. push_all (ring_example LIFO True [5, 6] 0 0 2) [[1], [2]]
                   = Some (replicate (length [[1 :: uint8_t], [2]]) True, q1)
              \<and> pop_n q1 (length [[1 :: uint8_t], [2]]) [0]
                   = Some (map (Pair True) (rev [[1], [2]]), q2))
   \<and> ready (ring_empty_records FIFO False 1 0 1)
   \<and> rec_sz (ring_empty_records FIFO False 1 0 1) = 0
   \<and> impl (ring_empty_records FIFO False 1 0 1) = FIFO
   \<and> (\<exists>oks q1 q2. push_all (ring_empty_records FIFO False 1 0 1) [[], []] = Some (oks, q1)
              \<and> pop_n q1 (length [[] :: uint8_t list, []]) []
                   = Some (map (Pair True) [[], []], q2))
   \<and> ready (ring_empty_records LIFO False 0 0 2)
   \<and> rec_sz (ring_empty_records LIFO False 0 0 2) = 0
   \<and> impl (ring_empty_records LIFO False 0 0 2) = LIFO
   \<and> (\<exists>oks q1 q2. push_all (ring_empty_records LIFO False 0 0 2) [[], []] = Some (oks, q1)
              \<and> pop_n q1 (length [[] :: uint8_t list, []]) []
                   = Some (map (Pair True) (rev [[], []]), q2))"
proof -
  have r: "ready (ring_example FIFO False [0, 0] 0 0 0)"
          "ready (ring_example FIFO True [5, 6] 0 0 2)"
          "ready (ring_example LIFO False [5, 0] 1 0 1)"
          "ready (ring_example LIFO True [5, 6] 0 0 2)"
    by (simp_all add: ready_def ring_example_def INT_MAX_def q_isInitialized_def
        QUEUE_INITIALIZED_def FIFO_def LIFO_def)
  have m: "impl (ring_example FIFO False [0, 0] 0 0 0) = FIFO"
          "q_isEmpty (ring_example FIFO False [0, 0] 0 0 0)"
          "impl (ring_example FIFO True [5, 6] 0 0 2) = FIFO"
          "ovw (ring_example FIFO True [5, 6] 0 0 2)"
          "length [[1 :: uint8_t], [2]] = unat (rec_nb (ring_example FIFO True [5, 6] 0 0 2))"
          "impl (ring_example LIFO False [5, 0] 1 0 1) = LIFO"
          "unat (cnt (ring_example LIFO False [5, 0] 1 0 1)) + length [[7 :: uint8_t]]
             \<le> unat (rec_nb (ring_example LIFO False [5, 0] 1 0 1))"
          "impl (ring_example LIFO True [5, 6] 0 0 2) = LIFO"
          "ovw (ring_example LIFO True [5, 6] 0 0 2)"
    by (simp_all add: ring_example_def q_isEmpty_def)
  have a: "length [[1 :: uint8_t], [2]] \<le> unat (rec_nb (ring_example FIFO False [0, 0] 0 0 0))"
          "\<forall>r \<in> set [[1 :: uint8_t], [2]].
             length r = unat (rec_sz (ring_example FIFO False [0, 0] 0 0 0))"
          "length [0 :: uint8_t] = unat (rec_sz (ring_example FIFO False [0, 0] 0 0 0))"
    by (simp_all add: ring_example_def)
  have b: "length [[1 :: uint8_t], [2]] \<le> unat (rec_nb (ring_example FIFO True [5, 6] 0 0 2))"
          "\<forall>r \<in> set [[1 :: uint8_t], [2]].
             length r = unat (rec_sz (ring_example FIFO True [5, 6] 0 0 2))"
          "length [0 :: uint8_t] = unat (rec_sz (ring_example FIFO True [5, 6] 0 0 2))"
    by (simp_all add: ring_example_def)
  have c: "length [[7 :: uint8_t]] \<le> unat (rec_nb (ring_example LIFO False [5, 0] 1 0 1))"
          "\<forall>r \<in> set [[7 :: uint8_t]].
             length r = unat (rec_sz (ring_example LIFO False [5, 0] 1 0 1))"
          "length [0 :: uint8_t] = unat (rec_sz (ring_example LIFO False [5, 0] 1 0 1))"
    by (simp_all add: ring_example_def)
  have d: "length [[1 :: uint8_t], [2]] \<le> unat (rec_nb (ring_example LIFO True [5, 6] 0 0 2))"
          "\<forall>r \<in> set [[1 :: uint8_t], [2]].
             length r = unat (rec_sz (ring_example LIFO True [5, 6] 0 0 2))"
          "length [0 :: uint8_t] = unat (rec_sz (ring_example LIFO True [5, 6] 0 0 2))"
    by (simp_all add: ring_example_def)
  have z: "ready (ring_empty_records FIFO False 1 0 1)"
          "ready (ring_empty_records LIFO False 0 0 2)"
    by (simp_all add: ready_def ring_empty_records_def INT_MAX_def q_isInitialized_def
        QUEUE_INITIALIZED_def FIFO_def LIFO_def)
  have y: "rec_sz (ring_empty_records FIFO False 1 0 1) = 0"
          "impl (ring_empty_records FIFO False 1 0 1) = FIFO"
          "rec_sz (ring_empty_records LIFO False 0 0 2) = 0"
          "impl (ring_empty_records LIFO False 0 0 2) = LIFO"
    by (simp_all add: ring_empty_records_def)
  have e: "length [[] :: uint8_t list, []]
             \<le> unat (rec_nb (ring_empty_records FIFO False 1 0 1))"
          "\<forall>r \<in> set [[] :: uint8_t list, []].
             length r = unat (rec_sz (ring_empty_records FIFO False 1 0 1))"
          "length ([] :: uint8_t list) = unat (rec_sz (ring_empty_records FIFO False 1 0 1))"
    by (simp_all add: ring_empty_records_def)
  have f: "length [[] :: uint8_t list, []]
             \<le> unat (rec_nb (ring_empty_records LIFO False 0 0 2))"
          "\<forall>r \<in> set [[] :: uint8_t list, []].
             length r = unat (rec_sz (ring_empty_records LIFO False 0 0 2))"
          "length ([] :: uint8_t list) = unat (rec_sz (ring_empty_records LIFO False 0 0 2))"
    by (simp_all add: ring_empty_records_def)
  have t1: "\<exists>q1 q2. push_all (ring_example FIFO False [0, 0] 0 0 0) [[1], [2]]
                   = Some (replicate (length [[1 :: uint8_t], [2]]) True, q1)
              \<and> pop_n q1 (length [[1 :: uint8_t], [2]]) [0]
                   = Some (map (Pair True) [[1], [2]], q2)"
    using m push_pop_roundtrip [OF r(1) a] by blast
  have t2: "\<exists>q1 q2. push_all (ring_example FIFO True [5, 6] 0 0 2) [[1], [2]]
                   = Some (replicate (length [[1 :: uint8_t], [2]]) True, q1)
              \<and> pop_n q1 (length [[1 :: uint8_t], [2]]) [0]
                   = Some (map (Pair True) [[1], [2]], q2)"
    using m push_pop_roundtrip [OF r(2) b] by blast
  have t3: "\<exists>q1 q2. push_all (ring_example LIFO False [5, 0] 1 0 1) [[7]]
                   = Some (replicate (length [[7 :: uint8_t]]) True, q1)
              \<and> pop_n q1 (length [[7 :: uint8_t]]) [0]
                   = Some (map (Pair True) (rev [[7]]), q2)"
    using m push_pop_roundtrip [OF r(3) c] by blast
  have t4: "\<exists>q1 q2. push_all (ring_example LIFO True [5, 6] 0 0 2) [[1], [2]]
                   = Some (replicate (length [[1 :: uint8_t], [2]]) True, q1)
              \<and> pop_n q1 (length [[1 :: uint8_t], [2]]) [0]
                   = Some (map (Pair True) (rev [[1], [2]]), q2)"
    using m push_pop_roundtrip [OF r(4) d] by blast
  have t5: "\<exists>oks q1 q2. push_all (ring_empty_records FIFO False 1 0 1) [[], []] = Some (oks, q1)
              \<and> pop_n q1 (length [[] :: uint8_t list, []]) []
                   = Some (map (Pair True) [[], []], q2)"
    using y push_pop_roundtrip [OF z(1) e] by blast
  have t6: "\<exists>oks q1 q2. push_all (ring_empty_records LIFO False 0 0 2) [[], []] = Some (oks, q1)
              \<and> pop_n q1 (length [[] :: uint8_t list, []]) []
                   = Some (map (Pair True) (rev [[], []]), q2)"
    using y push_pop_roundtrip [OF z(2) f] by blast
  show ?thesis
    using r m(1-6,8,9) z y t1 t2 t3 t4 t5 t6 by (intro conjI)
qed

section \<open>Push on a full ring with overwrite\<close>

lemma hd_tl_snoc: "cs \<noteq> [] \<Longrightarrow> hd (tl cs @ [x]) = (cs @ [x]) ! 1"
  by (cases cs) (simp_all add: hd_append hd_conv_nth nth_append)

text \<open>
  C3. On a ready full ring with overwrite enabled, \<open>q_push\<close> of a record of \<open>rec_sz\<close>
  bytes returns true; the count stays equal to the capacity (the ring is still full);
  slot \<open>in\<close> now holds the record and every other slot is unchanged; \<open>in\<close> has moved to
  \<open>(in + 1) mod rec_nb\<close>. In FIFO mode \<open>out\<close> has moved to \<open>(out + 1) mod rec_nb\<close> and
  the next \<open>q_pop\<close> returns the second-oldest record: the second of the records held
  before followed by the new one (with a capacity of 1 that is the new record). In LIFO
  mode \<open>out\<close> is unchanged.
\<close>

theorem push_full_overwrite:
  assumes "ready q" and "q_isFull q" and "ovw q"
    and "length rcd = unat (rec_sz q)" and "length buf = unat (rec_sz q)"
  shows "\<exists>q'. q_push q rcd = Some (True, q')
           \<and> rec_nb q' = rec_nb q \<and> cnt q' = rec_nb q \<and> q_isFull q'
           \<and> slot q' (unat (in' q)) = rcd
           \<and> (\<forall>j < unat (rec_nb q). j \<noteq> unat (in' q) \<longrightarrow> slot q' j = slot q j)
           \<and> unat (in' q') = (unat (in' q) + 1) mod unat (rec_nb q)
           \<and> (impl q = FIFO \<longrightarrow>
                 unat (out q') = (unat (out q) + 1) mod unat (rec_nb q)
                 \<and> (\<exists>q''. q_pop q' buf = Some (True, q'', (fifo_contents q @ [rcd]) ! 1)))
           \<and> (impl q = LIFO \<longrightarrow> out q' = out q)"
proof -
  let ?s = "unat (rec_sz q)" and ?i = "unat (in' q)" and ?n = "unat (rec_nb q)"
  have l': "?s \<le> length rcd" using assms(4) by simp
  have g: "ovw q \<or> \<not> q_isFull q" using assms(3) by simp
  obtain q' where p: "q_push q rcd = Some (True, q')" and r': "ready q'"
    and nb: "rec_nb q' = rec_nb q" and sz: "rec_sz q' = rec_sz q"
    and im: "impl q' = impl q"
    and i': "in' q' = INC_IDX (in' q) (rec_nb q) 0"
    and o': "out q' = (if q_isFull q \<and> impl q = FIFO
                       then INC_IDX (out q) (rec_nb q) 0 else out q)"
    and c': "cnt q' = (if q_isFull q then cnt q else cnt q + 1)"
    and sl: "\<forall>j < ?n. slot q' j = (if j = ?i then take ?s rcd else slot q j)"
    using q_push_ready [OF assms(1) l' g] by blast
  have wi: "in' q < rec_nb q" and wo: "out q < rec_nb q"
    using assms(1) by (simp_all add: ready_def)
  have i: "?i < ?n" using ready_cursors [OF assms(1)] by simp
  have ce: "cnt q = rec_nb q" using assms(2) by (simp add: q_isFull_def split: if_splits)
  have c1: "cnt q' = rec_nb q" using c' assms(2) ce by simp
  have f1: "q_isFull q'" using c1 nb by (simp add: q_isFull_def)
  have s1: "slot q' ?i = rcd" using sl i assms(4) by simp
  have s2: "\<forall>j < ?n. j \<noteq> ?i \<longrightarrow> slot q' j = slot q j" using sl by simp
  have i1: "unat (in' q') = (?i + 1) mod ?n" using i' by (simp add: unat_INC_IDX [OF wi])
  have fifo: "impl q = FIFO \<longrightarrow>
                 unat (out q') = (unat (out q) + 1) mod ?n
                 \<and> (\<exists>q''. q_pop q' buf = Some (True, q'', (fifo_contents q @ [rcd]) ! 1))"
  proof
    assume f: "impl q = FIFO"
    have o1: "unat (out q') = (unat (out q) + 1) mod ?n"
      using o' assms(2) f by (simp add: unat_INC_IDX [OF wo])
    obtain p' where "q_push q rcd = Some (True, p')"
      and "fifo_contents p' =
             (if q_isFull q then tl (fifo_contents q) else fifo_contents q) @ [rcd]"
      using q_push_fifo [OF assms(1) f assms(4) g] by blast
    with p assms(2) have fc: "fifo_contents q' = tl (fifo_contents q) @ [rcd]" by simp
    have "0 < ?n" using i by simp
    then have "fifo_contents q \<noteq> []"
      using ce length_fifo_contents [of q] by auto
    then have h: "hd (fifo_contents q') = (fifo_contents q @ [rcd]) ! 1"
      unfolding fc by (rule hd_tl_snoc)
    have "rec_nb q \<noteq> 0" using \<open>0 < ?n\<close> by auto
    then have ne: "\<not> q_isEmpty q'" using c1 by (simp add: q_isEmpty_def)
    have f': "impl q' = FIFO" using im f by simp
    have b: "length buf = unat (rec_sz q')" using assms(5) sz by simp
    obtain q'' where "q_pop q' buf = Some (True, q'', hd (fifo_contents q'))"
      using q_pop_fifo [OF r' f' b ne] by blast
    with h o1 show "unat (out q') = (unat (out q) + 1) mod ?n
                 \<and> (\<exists>q''. q_pop q' buf = Some (True, q'', (fifo_contents q @ [rcd]) ! 1))"
      by simp
  qed
  have lifo: "impl q = LIFO \<longrightarrow> out q' = out q"
    using o' FIFO_neq_LIFO by simp
  show ?thesis
    using p nb c1 f1 s1 s2 i1 fifo lifo by (intro exI [of _ q']) blast
qed

text \<open>
  The theorem at a full FIFO ring holding 5 then 6: the push of 9 goes to slot 0, both
  cursors move to 1, and the pop returns 6.
\<close>

theorem push_full_overwrite_witness:
  "ready (ring_example FIFO True [5, 6] 0 0 2)
   \<and> q_isFull (ring_example FIFO True [5, 6] 0 0 2)
   \<and> ovw (ring_example FIFO True [5, 6] 0 0 2)
   \<and> impl (ring_example FIFO True [5, 6] 0 0 2) = FIFO
   \<and> q_push (ring_example FIFO True [5, 6] 0 0 2) [9]
        = Some (True, ring_example FIFO True [9, 6] 1 1 2)
   \<and> fifo_contents (ring_example FIFO True [5, 6] 0 0 2) = [[5], [6]]
   \<and> (\<exists>q''. q_pop (ring_example FIFO True [9, 6] 1 1 2) [0] = Some (True, q'', [6]))"
proof -
  have r: "ready (ring_example FIFO True [5, 6] 0 0 2)"
    by (simp add: ready_def ring_example_def int_mul_def INT_MAX_def q_isInitialized_def QUEUE_INITIALIZED_def)
  have h: "q_isFull (ring_example FIFO True [5, 6] 0 0 2)"
          "ovw (ring_example FIFO True [5, 6] 0 0 2)"
          "length [9 :: uint8_t] = unat (rec_sz (ring_example FIFO True [5, 6] 0 0 2))"
          "length [0 :: uint8_t] = unat (rec_sz (ring_example FIFO True [5, 6] 0 0 2))"
    by (simp_all add: q_isFull_def ring_example_def int_mul_def INT_MAX_def)
  have m: "impl (ring_example FIFO True [5, 6] 0 0 2) = FIFO"
    by (simp add: ring_example_def int_mul_def INT_MAX_def)
  have p: "q_push (ring_example FIFO True [5, 6] 0 0 2) [9]
        = Some (True, ring_example FIFO True [9, 6] 1 1 2)"
    by (simp add: q_push_def ring_example_def int_mul_def INT_MAX_def q_isFull_def memcpy_def INC_IDX_def Let_def)
  have c: "fifo_contents (ring_example FIFO True [5, 6] 0 0 2) = [[5], [6]]"
    by (simp add: fifo_contents_def ring_example_def int_mul_def INT_MAX_def slot_def storage_def upt_conv_Cons
        del: upt_Suc)
  have "\<exists>q''. q_pop (ring_example FIFO True [9, 6] 1 1 2) [0]
                 = Some (True, q'', (fifo_contents (ring_example FIFO True [5, 6] 0 0 2) @ [[9]]) ! 1)"
    using push_full_overwrite [OF r h] m p by auto
  then have "\<exists>q''. q_pop (ring_example FIFO True [9, 6] 1 1 2) [0] = Some (True, q'', [6])"
    unfolding c by simp
  then show ?thesis using r h m p c by simp
qed

end
